theory Spec2Isabelle
  imports Main "HOL-Library.Multiset" "HOL-Library.Word"
begin

unbundle bit_operations_syntax

section \<open>JavaScript values\<close>

text \<open>
  The scripts of the repository are independent of each other. The values they handle are
  \<^verbatim>\<open>undefined\<close>, \<^verbatim>\<open>null\<close>, numbers and strings. The carrier of the numbers is a
  parameter: the worker demo only counts (integers far below \<open>2^53\<close>, which a JavaScript
  number represents exactly, so \<open>int\<close>), the promise demo takes any number (an IEEE-754
  binary64 value, given by its 64 bits).
\<close>

datatype 'n jsval = Undefined | Null | Num 'n | Str string

section \<open>The worker demo: worker threads and a heartbeat timer\<close>

text \<open>
  The script, with the statement each program point stands at:
  \<^verbatim>\<open>
   4  if (isMainThread) {
   5    for (let i = 0; i < 8; ++i) {
   6      const w = new Worker(__filename, { workerData: i });
   7    }
   9    setInterval((a) => console.log(a), 1000, 'Still alive!');
  10  } else {
  11    console.log('Started: ', workerData);
  13    while (true) {
  14      Math.random();
  15    }
  16  }
  \<close>
  Every thread (the main thread and each worker) runs this same file from its
  first line; \<open>isMainThread\<close> and \<open>workerData\<close> are what the runtime gives the thread.
  The bound of the loop, 8 in the source, is the parameter \<open>workerCount\<close>.

  A thread is at one of these points: \<open>At_if\<close> before the test of line 4 (entering the
  main branch initialises \<open>i\<close>); \<open>At_for\<close> before the test \<open>i < workerCount\<close>;
  \<open>At_new_Worker\<close> before line 6 and the \<open>++i\<close> that follows it; \<open>At_setInterval\<close>
  before line 9; \<open>At_log\<close> before line 11; \<open>At_while\<close> before the test of line 13,
  which is always true; \<open>At_random\<close> before line 14; \<open>At_end\<close> after the last statement.
\<close>

datatype pc =
    At_if | At_for | At_new_Worker | At_setInterval | At_log | At_while | At_random | At_end

record thread =
  isMainThread :: bool
  workerData :: "int jsval"
  at :: pc
  loop_i :: int
  timers :: "(nat \<times> int jsval list) list"

text \<open>
  What one statement asks of the runtime. \<open>New_Worker d\<close> is a spawn request for this
  same file with \<open>workerData\<close> \<open>d\<close>; \<open>Set_Interval\<close> carries the period and the
  arguments for the callback; \<open>Math_random\<close> draws a number, which the statement drops.
\<close>

datatype effect =
    Silent
  | New_Worker "int jsval"
  | Set_Interval nat "int jsval list"
  | Console_log "int jsval list"
  | Math_random

definition script :: "int \<Rightarrow> thread \<Rightarrow> (effect \<times> thread) option" where
  "script workerCount c =
     (case at c of
        At_if \<Rightarrow>
          Some (Silent, if isMainThread c then c\<lparr>at := At_for, loop_i := 0\<rparr>
                        else c\<lparr>at := At_log\<rparr>)
      | At_for \<Rightarrow>
          Some (Silent, if loop_i c < workerCount then c\<lparr>at := At_new_Worker\<rparr>
                        else c\<lparr>at := At_setInterval\<rparr>)
      | At_new_Worker \<Rightarrow>
          Some (New_Worker (Num (loop_i c)), c\<lparr>at := At_for, loop_i := loop_i c + 1\<rparr>)
      | At_setInterval \<Rightarrow>
          Some (Set_Interval 1000 [Str ''Still alive!''], c\<lparr>at := At_end\<rparr>)
      | At_log \<Rightarrow>
          Some (Console_log [Str ''Started: '', workerData c], c\<lparr>at := At_while\<rparr>)
      | At_while \<Rightarrow> Some (Silent, c\<lparr>at := At_random\<rparr>)
      | At_random \<Rightarrow> Some (Math_random, c\<lparr>at := At_while\<rparr>)
      | At_end \<Rightarrow> None)"

text \<open>The callback of the timer, \<^verbatim>\<open>(a) => console.log(a)\<close>, on the timer's arguments.\<close>

definition interval_callback :: "int jsval list \<Rightarrow> effect" where
  "interval_callback args = Console_log [case args of [] \<Rightarrow> Undefined | a # _ \<Rightarrow> a]"

subsection \<open>The process\<close>

text \<open>
  The process is the list of its execution contexts, the main thread first and the workers
  in the order of their creation, and the console: the arguments of every
  \<^verbatim>\<open>console.log\<close> call so far, oldest first, each with the index of the thread that
  made it.
\<close>

record system =
  contexts :: "thread list"
  console :: "(nat \<times> int jsval list) list"

definition main_context :: thread where
  "main_context =
     \<lparr>isMainThread = True, workerData = Null, at = At_if, loop_i = 0, timers = []\<rparr>"

definition worker_context :: "int jsval \<Rightarrow> thread" where
  "worker_context d =
     \<lparr>isMainThread = False, workerData = d, at = At_if, loop_i = 0, timers = []\<rparr>"

definition initial :: system where
  "initial = \<lparr>contexts = [main_context], console = []\<rparr>"

definition perform :: "nat \<Rightarrow> effect \<Rightarrow> system \<Rightarrow> system" where
  "perform k e s =
     (case e of
        Silent \<Rightarrow> s
      | Math_random \<Rightarrow> s
      | New_Worker d \<Rightarrow> s\<lparr>contexts := contexts s @ [worker_context d]\<rparr>
      | Set_Interval ms args \<Rightarrow>
          s\<lparr>contexts := (contexts s)
               [k := (contexts s ! k)\<lparr>timers := timers (contexts s ! k) @ [(ms, args)]\<rparr>]\<rparr>
      | Console_log args \<Rightarrow> s\<lparr>console := console s @ [(k, args)]\<rparr>)"

text \<open>
  The scheduler is free: \<open>Run k\<close> lets thread \<open>k\<close> execute its next statement,
  \<open>Tick k j\<close> fires timer \<open>j\<close> of thread \<open>k\<close>, which the event loop of a thread does
  only once its script has run to the end. An event that cannot happen gives \<open>None\<close>.
  Time is not part of the state: a tick of an installed timer may come at any moment.
\<close>

datatype event = Run nat | Tick nat nat

fun step :: "int \<Rightarrow> event \<Rightarrow> system \<Rightarrow> system option" where
  "step n (Run k) s =
     (if k < length (contexts s) then
        (case script n (contexts s ! k) of
           None \<Rightarrow> None
         | Some (e, c') \<Rightarrow> Some (perform k e (s\<lparr>contexts := (contexts s)[k := c']\<rparr>)))
      else None)"
| "step n (Tick k j) s =
     (if k < length (contexts s) \<and> at (contexts s ! k) = At_end
         \<and> j < length (timers (contexts s ! k))
      then Some (perform k (interval_callback (snd (timers (contexts s ! k) ! j))) s)
      else None)"

fun run :: "int \<Rightarrow> event list \<Rightarrow> system \<Rightarrow> system option" where
  "run n [] s = Some s"
| "run n (e # es) s = (case step n e s of None \<Rightarrow> None | Some s' \<Rightarrow> run n es s')"

subsection \<open>The main thread's branch as one function\<close>

text \<open>
  Lines 5 to 9 run without interruption by anything else on the main thread: the loop
  issues its spawn requests one after the other, then the timer is installed. \<open>Start\<close>
  is this branch as a function of the process, on the main thread (index 0).
\<close>

function spawn_loop :: "int \<Rightarrow> int \<Rightarrow> system \<Rightarrow> system" where
  "spawn_loop workerCount i s =
     (if i < workerCount
      then spawn_loop workerCount (i + 1) (perform 0 (New_Worker (Num i)) s)
      else s)"
  by pat_completeness auto
termination
  by (relation "measure (\<lambda>(workerCount, i, s). nat (workerCount - i))") auto

declare spawn_loop.simps [simp del]

definition Start :: "int \<Rightarrow> system \<Rightarrow> system" where
  "Start workerCount s =
     perform 0 (Set_Interval 1000 [Str ''Still alive!'']) (spawn_loop workerCount 0 s)"

subsection \<open>The worker's branch as one function\<close>

text \<open>
  Lines 11 to 15 on thread \<open>k\<close>: the log line, then the loop. The loop has no exit, so
  the branch is a partial function, and \<open>None\<close> stands for not returning.
\<close>

partial_function (option) while_true :: "nat \<Rightarrow> system \<Rightarrow> system option" where
  "while_true k s = while_true k (perform k Math_random s)"

definition worker_branch :: "nat \<Rightarrow> system \<Rightarrow> system option" where
  "worker_branch k s =
     while_true k (perform k (Console_log [Str ''Started: '', workerData (contexts s ! k)]) s)"

subsection \<open>States and schedules of particular runs\<close>

text \<open>
  The process while the main thread, alone so far, is at the head of its loop with
  \<open>i\<close> spawn requests issued, and once it has run its branch to the end.
\<close>

definition spawning :: "int \<Rightarrow> system" where
  "spawning i =
     \<lparr>contexts = main_context\<lparr>at := At_for, loop_i := i\<rparr> #
                   map (\<lambda>k. worker_context (Num k)) [0..i - 1],
      console = []\<rparr>"

definition spawned :: "int \<Rightarrow> system" where
  "spawned n =
     \<lparr>contexts =
        main_context\<lparr>at := At_end, loop_i := max 0 n,
                      timers := [(1000, [Str ''Still alive!''])]\<rparr> #
        map (\<lambda>k. worker_context (Num k)) [0..n - 1],
      console = []\<rparr>"

text \<open>
  The process once, after that, the workers \<open>0\<close> to \<open>j - 1\<close> have each printed and
  entered their loop, one after the other, and the schedule that lets all of them do so.
\<close>

definition started_upto :: "int \<Rightarrow> int \<Rightarrow> system" where
  "started_upto n j =
     \<lparr>contexts =
        main_context\<lparr>at := At_end, loop_i := max 0 n,
                      timers := [(1000, [Str ''Still alive!''])]\<rparr> #
        map (\<lambda>k. (worker_context (Num k))\<lparr>at := At_while\<rparr>) [0..j - 1] @
        map (\<lambda>k. worker_context (Num k)) [j..n - 1],
      console = map (\<lambda>k. (nat k + 1, [Str ''Started: '', Num k])) [0..j - 1]\<rparr>"

definition in_order_schedule :: "int \<Rightarrow> event list" where
  "in_order_schedule n =
     replicate (2 * nat n + 3) (Run 0) @
     concat (map (\<lambda>k. [Run (nat k + 1), Run (nat k + 1)]) [0..n - 1])"

subsection \<open>What one thread does on its own\<close>

text \<open>The effects of the first \<open>k\<close> statements a thread executes, in order.\<close>

fun trace :: "int \<Rightarrow> nat \<Rightarrow> thread \<Rightarrow> effect list" where
  "trace n 0 c = []"
| "trace n (Suc k) c =
     (case script n c of None \<Rightarrow> [] | Some (e, c') \<Rightarrow> e # trace n k c')"

text \<open>The workerData of the spawn requests among a thread's effects, in order.\<close>

fun spawn_requests :: "effect list \<Rightarrow> int jsval list" where
  "spawn_requests [] = []"
| "spawn_requests (New_Worker d # es) = d # spawn_requests es"
| "spawn_requests (_ # es) = spawn_requests es"

subsection \<open>Observations\<close>

text \<open>The process is alive while some thread still has a statement to run or a timer.\<close>

definition alive :: "system \<Rightarrow> bool" where
  "alive s = (\<exists>c \<in> set (contexts s). at c \<noteq> At_end \<or> timers c \<noteq> [])"

definition workers :: "system \<Rightarrow> thread list" where
  "workers s = tl (contexts s)"

definition lines_of :: "nat \<Rightarrow> system \<Rightarrow> int jsval list list" where
  "lines_of k s = map snd (filter (\<lambda>e. fst e = k) (console s))"

definition in_loop :: "thread \<Rightarrow> bool" where
  "in_loop c = (at c = At_while \<or> at c = At_random)"

subsection \<open>Two concrete runs\<close>

text \<open>
  A run of the source's eight workers: the main thread runs its branch to the end, every
  worker passes its \<^verbatim>\<open>if\<close>, the workers print in the order 2, 0, 1, 7, 3, 4, 5, 6 and
  spin, and the timer fires twice.
\<close>

definition demo_schedule :: "event list" where
  "demo_schedule =
     replicate 19 (Run 0) @ map Run [8, 7, 6, 5, 4, 3, 2, 1] @
     map Run [3, 3, 1, 1, 2, 2, 8, 8, 4, 4, 5, 5, 6, 6, 7, 7, 7] @
     [Tick 0 0, Run 1, Tick 0 0]"

definition demo_state :: system where
  "demo_state =
     \<lparr>contexts =
        [\<lparr>isMainThread = True, workerData = Null, at = At_end, loop_i = 8,
            timers = [(1000, [Str ''Still alive!''])]\<rparr>,
         \<lparr>isMainThread = False, workerData = Num 0, at = At_while, loop_i = 0, timers = []\<rparr>,
         \<lparr>isMainThread = False, workerData = Num 1, at = At_random, loop_i = 0, timers = []\<rparr>,
         \<lparr>isMainThread = False, workerData = Num 2, at = At_random, loop_i = 0, timers = []\<rparr>,
         \<lparr>isMainThread = False, workerData = Num 3, at = At_random, loop_i = 0, timers = []\<rparr>,
         \<lparr>isMainThread = False, workerData = Num 4, at = At_random, loop_i = 0, timers = []\<rparr>,
         \<lparr>isMainThread = False, workerData = Num 5, at = At_random, loop_i = 0, timers = []\<rparr>,
         \<lparr>isMainThread = False, workerData = Num 6, at = At_while, loop_i = 0, timers = []\<rparr>,
         \<lparr>isMainThread = False, workerData = Num 7, at = At_random, loop_i = 0, timers = []\<rparr>],
      console =
        [(3, [Str ''Started: '', Num 2]), (1, [Str ''Started: '', Num 0]),
         (2, [Str ''Started: '', Num 1]), (8, [Str ''Started: '', Num 7]),
         (4, [Str ''Started: '', Num 3]), (5, [Str ''Started: '', Num 4]),
         (6, [Str ''Started: '', Num 5]), (7, [Str ''Started: '', Num 6]),
         (0, [Str ''Still alive!'']), (0, [Str ''Still alive!''])]\<rparr>"

text \<open>A run with the bound 0: the main thread runs to the end and the timer fires twice.\<close>

definition idle_schedule :: "event list" where
  "idle_schedule = [Run 0, Run 0, Run 0, Tick 0 0, Tick 0 0]"

definition idle_state :: system where
  "idle_state =
     \<lparr>contexts =
        [\<lparr>isMainThread = True, workerData = Null, at = At_end, loop_i = 0,
            timers = [(1000, [Str ''Still alive!''])]\<rparr>],
      console = [(0, [Str ''Still alive!'']), (0, [Str ''Still alive!''])]\<rparr>"

subsection \<open>The text of a console line\<close>

fun digits :: "nat \<Rightarrow> string" where
  "digits n =
     (if n < 10 then [''0123456789'' ! n]
      else digits (n div 10) @ [''0123456789'' ! (n mod 10)])"

declare digits.simps [simp del]

text \<open>Reading a decimal numeral back.\<close>

definition read_digits :: "string \<Rightarrow> nat" where
  "read_digits ds = foldl (\<lambda>a c. 10 * a + (of_char c - 48)) 0 ds"

fun to_string :: "int jsval \<Rightarrow> string" where
  "to_string Undefined = ''undefined''"
| "to_string Null = ''null''"
| "to_string (Num k) = (if k < 0 then CHR ''-'' # digits (nat (- k)) else digits (nat k))"
| "to_string (Str s) = s"

fun format_log :: "int jsval list \<Rightarrow> string" where
  "format_log [] = []"
| "format_log [a] = to_string a"
| "format_log (a # b # bs) = to_string a @ '' '' @ format_log (b # bs)"

subsection \<open>The invariant of the process\<close>

definition main_inv :: "int \<Rightarrow> nat \<Rightarrow> thread \<Rightarrow> bool" where
  "main_inv n w m =
     (isMainThread m \<and>
      (case at m of
         At_if \<Rightarrow> w = 0 \<and> timers m = []
       | At_for \<Rightarrow> 0 \<le> loop_i m \<and> loop_i m \<le> max 0 n \<and> w = nat (loop_i m) \<and> timers m = []
       | At_new_Worker \<Rightarrow> 0 \<le> loop_i m \<and> loop_i m < n \<and> w = nat (loop_i m) \<and> timers m = []
       | At_setInterval \<Rightarrow> w = nat n \<and> timers m = []
       | At_end \<Rightarrow> w = nat n \<and> timers m = [(1000, [Str ''Still alive!''])]
       | _ \<Rightarrow> False))"

definition worker_inv :: "nat \<Rightarrow> thread \<Rightarrow> bool" where
  "worker_inv k c =
     (\<not> isMainThread c \<and> workerData c = Num (int k) \<and> timers c = [] \<and>
      (at c = At_if \<or> at c = At_log \<or> at c = At_while \<or> at c = At_random))"

definition coordinator :: "system \<Rightarrow> thread" where
  "coordinator s = hd (contexts s)"

definition process_inv :: "int \<Rightarrow> system \<Rightarrow> bool" where
  "process_inv n s =
     (contexts s \<noteq> [] \<and>
      main_inv n (length (workers s)) (coordinator s) \<and>
      (\<forall>k < length (workers s). worker_inv k (workers s ! k)) \<and>
      (\<forall>k < length (workers s). lines_of (Suc k) s =
          (if in_loop (workers s ! k) then [[Str ''Started: '', Num (int k)]] else [])) \<and>
      (\<forall>e \<in> set (console s). fst e \<le> length (workers s)) \<and>
      (\<forall>a \<in> set (lines_of 0 s). a = [Str ''Still alive!''] \<and> at (coordinator s) = At_end))"

section \<open>error-handling--promise-vs-async.js\<close>

subsection \<open>Numbers as binary64 bit patterns\<close>

type_synonym double = "64 word"

text \<open>The magnitude bits of a number: biased exponent (11 bits) and fraction (52 bits).\<close>

definition magnitude :: "double \<Rightarrow> double" where
  "magnitude w = take_bit 63 w"

definition sign_negative :: "double \<Rightarrow> bool" where
  "sign_negative w = bit w 63"

text \<open>NaN: the exponent field is all ones and the fraction is not zero.\<close>

definition is_NaN :: "double \<Rightarrow> bool" where
  "is_NaN w = (0x7FF0000000000000 < magnitude w)"

text \<open>\<^verbatim>\<open>number > 0\<close>: false for NaN, for both zeros and for every negative number.\<close>

definition gt_zero :: "double \<Rightarrow> bool" where
  "gt_zero w = (\<not> is_NaN w \<and> \<not> sign_negative w \<and> magnitude w \<noteq> 0)"

text \<open>\<^verbatim>\<open>number <= 0\<close>: false for NaN, true for both zeros and every negative number.\<close>

definition le_zero :: "double \<Rightarrow> bool" where
  "le_zero w = (\<not> is_NaN w \<and> (sign_negative w \<or> magnitude w = 0))"

text \<open>
  \<^verbatim>\<open>number * 2\<close>. Doubling is exact in binary64 unless it overflows: NaN stays NaN, an
  infinity stays, a number with the largest finite exponent becomes an infinity of its
  sign, zeros and subnormals shift their magnitude left by one bit (which carries into
  the exponent field where needed), and every other number gets its exponent incremented.
\<close>

definition times_two :: "double \<Rightarrow> double" where
  "times_two w =
     (let m = magnitude w; s = w AND 0x8000000000000000 in
      if 0x7FF0000000000000 < m then 0x7FF8000000000000
      else if 0x7FE0000000000000 \<le> m then s OR 0x7FF0000000000000
      else if m < 0x0010000000000000 then s OR push_bit 1 m
      else w + 0x0010000000000000)"

subsection \<open>Promises\<close>

datatype 'n promise = Pending | Fulfilled "'n jsval" | Rejected "'n jsval"

text \<open>
  The two functions handed to the executor of \<^verbatim>\<open>new Promise\<close>. Only the first call of
  either settles the promise. (The values resolved with are numbers, never thenables.)
\<close>

definition resolve :: "'n jsval \<Rightarrow> 'n promise \<Rightarrow> 'n promise" where
  "resolve v p = (case p of Pending \<Rightarrow> Fulfilled v | _ \<Rightarrow> p)"

definition reject :: "'n jsval \<Rightarrow> 'n promise \<Rightarrow> 'n promise" where
  "reject e p = (case p of Pending \<Rightarrow> Rejected e | _ \<Rightarrow> p)"

text \<open>
  \<^verbatim>\<open>new Promise(executor)\<close> runs the executor at once, on a pending promise, with the
  two settling functions.
\<close>

definition new_Promise ::
  "(('n jsval \<Rightarrow> 'n promise \<Rightarrow> 'n promise) \<Rightarrow> ('n jsval \<Rightarrow> 'n promise \<Rightarrow> 'n promise)
      \<Rightarrow> 'n promise \<Rightarrow> 'n promise) \<Rightarrow> 'n promise" where
  "new_Promise executor = executor resolve reject Pending"

text \<open>
  The body of a function either returns a value or throws one; an \<^verbatim>\<open>async\<close> function
  turns the first into a fulfilled promise and the second into a rejected one.
\<close>

datatype 'n completion = Return "'n jsval" | Throw "'n jsval"

definition async :: "'n completion \<Rightarrow> 'n promise" where
  "async body = (case body of Return v \<Rightarrow> Fulfilled v | Throw e \<Rightarrow> Rejected e)"

definition promiseFn :: "double \<Rightarrow> double promise" where
  "promiseFn number =
     new_Promise (\<lambda>resolve reject.
       if gt_zero number then resolve (Num (times_two number))
       else reject (Str ''Nope''))"

definition asyncFn :: "double \<Rightarrow> double promise" where
  "asyncFn number =
     async (if gt_zero number then Return (Num (times_two number))
            else Throw (Str ''Nope''))"

section \<open>Properties of the worker demo\<close>

subsection \<open>The invariant holds in every reachable state\<close>

lemma process_inv_initial: "process_inv n initial"
  by (simp add: process_inv_def initial_def main_context_def main_inv_def lines_of_def
      workers_def coordinator_def)

lemma process_invI:
  "contexts s = m # ws \<Longrightarrow> main_inv n (length ws) m \<Longrightarrow>
   (\<And>k. k < length ws \<Longrightarrow> worker_inv k (ws ! k)) \<Longrightarrow>
   (\<And>k. k < length ws \<Longrightarrow> lines_of (Suc k) s =
              (if in_loop (ws ! k) then [[Str ''Started: '', Num (int k)]] else [])) \<Longrightarrow>
   (\<And>e. e \<in> set (console s) \<Longrightarrow> fst e \<le> length ws) \<Longrightarrow>
   (\<And>a. a \<in> set (lines_of 0 s) \<Longrightarrow> a = [Str ''Still alive!''] \<and> at m = At_end) \<Longrightarrow>
   process_inv n s"
  by (simp add: process_inv_def workers_def coordinator_def)

lemma inv_contexts: "process_inv n s \<Longrightarrow> contexts s = coordinator s # workers s"
  by (simp add: process_inv_def workers_def coordinator_def)

lemma inv_main: "process_inv n s \<Longrightarrow> main_inv n (length (workers s)) (coordinator s)"
  by (simp add: process_inv_def)

lemma inv_worker: "process_inv n s \<Longrightarrow> k < length (workers s) \<Longrightarrow> worker_inv k (workers s ! k)"
  by (simp add: process_inv_def)

lemma inv_lines:
  "process_inv n s \<Longrightarrow> k < length (workers s) \<Longrightarrow>
   lines_of (Suc k) s =
     (if in_loop (workers s ! k) then [[Str ''Started: '', Num (int k)]] else [])"
  by (simp add: process_inv_def)

lemma inv_console: "process_inv n s \<Longrightarrow> e \<in> set (console s) \<Longrightarrow> fst e \<le> length (workers s)"
  by (simp add: process_inv_def)

lemma inv_ticks:
  "process_inv n s \<Longrightarrow> a \<in> set (lines_of 0 s) \<Longrightarrow>
   a = [Str ''Still alive!''] \<and> at (coordinator s) = At_end"
  by (simp add: process_inv_def)

lemma lines_of_contexts_update [simp]: "lines_of k (s\<lparr>contexts := cs\<rparr>) = lines_of k s"
  by (simp add: lines_of_def)

lemma lines_of_console_append [simp]:
  "lines_of k (s\<lparr>console := console s @ [(j, a)]\<rparr>) = lines_of k s @ (if j = k then [a] else [])"
  by (simp add: lines_of_def)

lemma lines_of_beyond:
  "(\<And>e. e \<in> set (console s) \<Longrightarrow> fst e \<le> w) \<Longrightarrow> w < k \<Longrightarrow> lines_of k s = []"
  by (fastforce simp: lines_of_def filter_empty_conv)

lemma step_main:
  assumes i: "process_inv n s" and "step n (Run 0) s = Some s'"
  shows "process_inv n s'"
proof -
  define m ws where "m = coordinator s" and "ws = workers s"
  have c: "contexts s = m # ws" and m: "main_inv n (length ws) m"
    and w: "\<And>k. k < length ws \<Longrightarrow> worker_inv k (ws ! k)"
    and l: "\<And>k. k < length ws \<Longrightarrow> lines_of (Suc k) s =
              (if in_loop (ws ! k) then [[Str ''Started: '', Num (int k)]] else [])"
    and b: "\<And>e. e \<in> set (console s) \<Longrightarrow> fst e \<le> length ws"
    and a: "\<And>a. a \<in> set (lines_of 0 s) \<Longrightarrow> a = [Str ''Still alive!''] \<and> at m = At_end"
    unfolding m_def ws_def
    using inv_contexts [OF i] inv_main [OF i] inv_worker [OF i] inv_lines [OF i]
      inv_console [OF i] inv_ticks [OF i] by blast+
  show ?thesis
  proof (cases "at m")
    case At_if
    with c m assms(2) have s': "s' = s\<lparr>contexts := m\<lparr>at := At_for, loop_i := 0\<rparr> # ws\<rparr>"
      by (auto simp: script_def perform_def main_inv_def)
    show ?thesis
      apply (rule process_invI [where m = "m\<lparr>at := At_for, loop_i := 0\<rparr>" and ws = ws])
      using m w l b a At_if by (auto simp: s' main_inv_def)
  next
    case At_for
    show ?thesis
    proof (cases "loop_i m < n")
      case True
      with At_for c m assms(2) have s': "s' = s\<lparr>contexts := m\<lparr>at := At_new_Worker\<rparr> # ws\<rparr>"
        by (auto simp: script_def perform_def main_inv_def)
      show ?thesis
        apply (rule process_invI [where m = "m\<lparr>at := At_new_Worker\<rparr>" and ws = ws])
        using m w l b a At_for True by (auto simp: s' main_inv_def)
    next
      case False
      with At_for c m assms(2) have s': "s' = s\<lparr>contexts := m\<lparr>at := At_setInterval\<rparr> # ws\<rparr>"
        by (auto simp: script_def perform_def main_inv_def)
      show ?thesis
        apply (rule process_invI [where m = "m\<lparr>at := At_setInterval\<rparr>" and ws = ws])
        using m w l b a At_for False by (auto simp: s' main_inv_def)
    qed
  next
    case At_new_Worker
    with c m assms(2) have s': "s' = s\<lparr>contexts :=
        m\<lparr>at := At_for, loop_i := loop_i m + 1\<rparr> # (ws @ [worker_context (Num (loop_i m))])\<rparr>"
      by (auto simp: script_def perform_def main_inv_def)
    from m At_new_Worker have len: "int (length ws) = loop_i m" "0 \<le> loop_i m" "loop_i m < n"
      by (auto simp: main_inv_def)
    show ?thesis
    proof (rule process_invI [where m = "m\<lparr>at := At_for, loop_i := loop_i m + 1\<rparr>"
          and ws = "ws @ [worker_context (Num (loop_i m))]"])
      show "contexts s' = m\<lparr>at := At_for, loop_i := loop_i m + 1\<rparr> # (ws @ [worker_context (Num (loop_i m))])"
        by (simp add: s')
      show "main_inv n (length (ws @ [worker_context (Num (loop_i m))])) (m\<lparr>at := At_for, loop_i := loop_i m + 1\<rparr>)"
        using m len At_new_Worker by (auto simp: main_inv_def)
    next
      fix k assume k: "k < length (ws @ [worker_context (Num (loop_i m))])"
      show "worker_inv k ((ws @ [worker_context (Num (loop_i m))]) ! k)"
        using k w [of k] len by (auto simp: nth_append worker_inv_def worker_context_def)
      have "lines_of (Suc (length ws)) s = []"
        by (rule lines_of_beyond [of s "length ws"]) (use b in auto)
      then show "lines_of (Suc k) s' =
         (if in_loop ((ws @ [worker_context (Num (loop_i m))]) ! k)
          then [[Str ''Started: '', Num (int k)]] else [])"
        using k l [of k] by (auto simp: s' nth_append in_loop_def worker_context_def less_Suc_eq)
    next
      fix e assume "e \<in> set (console s')"
      then show "fst e \<le> length (ws @ [worker_context (Num (loop_i m))])"
        using b [of e] by (simp add: s')
    next
      fix x assume "x \<in> set (lines_of 0 s')"
      then show "x = [Str ''Still alive!''] \<and> at (m\<lparr>at := At_for, loop_i := loop_i m + 1\<rparr>) = At_end"
        using a [of x] At_new_Worker by (simp add: s')
    qed
  next
    case At_setInterval
    with c m assms(2) have s': "s' = s\<lparr>contexts :=
        m\<lparr>at := At_end, timers := [(1000, [Str ''Still alive!''])]\<rparr> # ws\<rparr>"
      by (auto simp: script_def perform_def main_inv_def)
    show ?thesis
      apply (rule process_invI [where m = "m\<lparr>at := At_end, timers := [(1000, [Str ''Still alive!''])]\<rparr>" and ws = ws])
      using m w l b At_setInterval by (auto simp: s' main_inv_def dest: a)
  next
    case At_end
    with c assms(2) show ?thesis by (simp add: script_def)
  qed (use m in \<open>auto simp: main_inv_def\<close>)
qed


lemma script_worker:
  assumes "worker_inv j c"
  obtains e c' where "script n c = Some (e, c')" "worker_inv j c'"
    "e = Console_log [Str ''Started: '', Num (int j)] \<and> \<not> in_loop c \<and> in_loop c' \<or>
     (e = Silent \<or> e = Math_random) \<and> in_loop c' = in_loop c"
  using assms by (auto simp: worker_inv_def script_def in_loop_def)

lemma step_worker:
  assumes i: "process_inv n s" and st: "step n (Run (Suc j)) s = Some s'"
  shows "process_inv n s'"
proof -
  define m ws where "m = coordinator s" and "ws = workers s"
  have c: "contexts s = m # ws" and m: "main_inv n (length ws) m"
    and w: "\<And>k. k < length ws \<Longrightarrow> worker_inv k (ws ! k)"
    and l: "\<And>k. k < length ws \<Longrightarrow> lines_of (Suc k) s =
              (if in_loop (ws ! k) then [[Str ''Started: '', Num (int k)]] else [])"
    and b: "\<And>e. e \<in> set (console s) \<Longrightarrow> fst e \<le> length ws"
    and a: "\<And>a. a \<in> set (lines_of 0 s) \<Longrightarrow> a = [Str ''Still alive!''] \<and> at m = At_end"
    unfolding m_def ws_def
    using inv_contexts [OF i] inv_main [OF i] inv_worker [OF i] inv_lines [OF i]
      inv_console [OF i] inv_ticks [OF i] by blast+
  from st c have j: "j < length ws"
    by (simp split: if_splits)
  have "worker_inv j (ws ! j)"
    using j by (rule w)
  then obtain e c' where sc: "script n (ws ! j) = Some (e, c')" and w': "worker_inv j c'"
    and e: "e = Console_log [Str ''Started: '', Num (int j)] \<and> \<not> in_loop (ws ! j) \<and> in_loop c' \<or>
     (e = Silent \<or> e = Math_random) \<and> in_loop c' = in_loop (ws ! j)"
    by (rule script_worker)
  from st c j sc have s': "s' = perform (Suc j) e (s\<lparr>contexts := m # ws[j := c']\<rparr>)"
    by simp
  have cs': "contexts s' = m # ws[j := c']"
    using e by (auto simp: s' perform_def)
  show ?thesis
  proof (rule process_invI [where m = m and ws = "ws[j := c']"])
    fix k assume "k < length (ws[j := c'])"
    then have k: "k < length ws" by simp
    have u: "ws[j := c'] ! k = (if k = j then c' else ws ! k)"
      using j k by (simp add: nth_list_update)
    show "worker_inv k (ws[j := c'] ! k)"
      unfolding u using w [OF k] w' by simp
    show "lines_of (Suc k) s' =
        (if in_loop (ws[j := c'] ! k) then [[Str ''Started: '', Num (int k)]] else [])"
      unfolding u using l [OF k] e by (auto simp: s' perform_def lines_of_def)
  next
    fix x assume "x \<in> set (console s')"
    then show "fst x \<le> length (ws[j := c'])"
      using b [of x] j e by (auto simp: s' perform_def)
  next
    fix x assume x: "x \<in> set (lines_of 0 s')"
    have "lines_of 0 s' = lines_of 0 s"
      using e by (auto simp: s' perform_def lines_of_def)
    with x a [of x] show "x = [Str ''Still alive!''] \<and> at m = At_end"
      by simp
  qed (use m cs' in simp_all)
qed

lemma tick_only_main:
  assumes i: "process_inv n s" and st: "step n (Tick k j) s = Some s'"
  shows "k = 0 \<and> j = 0 \<and> at (coordinator s) = At_end \<and>
         s' = s\<lparr>console := console s @ [(0, [Str ''Still alive!''])]\<rparr>"
proof -
  from st have k: "k < length (contexts s)" and e: "at (contexts s ! k) = At_end"
    and jl: "j < length (timers (contexts s ! k))"
    and s': "s' = perform k (interval_callback (snd (timers (contexts s ! k) ! j))) s"
    by (auto split: if_splits)
  have k0: "k = 0"
  proof (cases k)
    case (Suc k')
    with k inv_contexts [OF i] have "k' < length (workers s)" by simp
    from inv_worker [OF i this] e Suc inv_contexts [OF i] show ?thesis
      by (auto simp: worker_inv_def)
  qed simp
  with inv_contexts [OF i] have ck: "contexts s ! k = coordinator s" by simp
  from inv_main [OF i] e ck have t: "timers (coordinator s) = [(1000, [Str ''Still alive!''])]"
    by (auto simp: main_inv_def)
  with jl ck have j0: "j = 0" by simp
  show ?thesis
    using k0 j0 e ck t by (simp add: s' perform_def interval_callback_def)
qed

lemma step_tick:
  assumes i: "process_inv n s" and st: "step n (Tick k j) s = Some s'"
  shows "process_inv n s'"
proof -
  from tick_only_main [OF i st] have e: "at (coordinator s) = At_end"
    and s': "s' = s\<lparr>console := console s @ [(0, [Str ''Still alive!''])]\<rparr>"
    by simp_all
  show ?thesis
    using i e unfolding process_inv_def s'
    by (auto simp: workers_def coordinator_def)
qed

lemma step_preserves:
  assumes "process_inv n s" and "step n ev s = Some s'"
  shows "process_inv n s'"
proof (cases ev)
  case (Run k)
  with assms show ?thesis
    by (cases k) (auto intro: step_main step_worker)
next
  case (Tick k j)
  with assms show ?thesis
    by (auto intro: step_tick)
qed

lemma run_preserves:
  "process_inv n s \<Longrightarrow> run n evs s = Some s' \<Longrightarrow> process_inv n s'"
  by (induction evs arbitrary: s) (auto split: option.splits intro: step_preserves)

lemma reachable_inv: "run n evs initial = Some s \<Longrightarrow> process_inv n s"
  using process_inv_initial by (rule run_preserves)

lemma spawn_loop_contexts:
  "contexts (spawn_loop n i s) = contexts s @ map (\<lambda>k. worker_context (Num k)) [i..n - 1]"
proof (induction n i s rule: spawn_loop.induct)
  case (1 n i s)
  show ?case
  proof (cases "i < n")
    case True
    then have "[i..n - 1] = i # [i + 1..n - 1]"
      by (simp add: upto_rec1)
    with True 1 show ?thesis
      by (subst spawn_loop.simps) (simp add: perform_def)
  next
    case False
    then show ?thesis
      by (subst spawn_loop.simps) simp
  qed
qed

lemma spawn_loop_console: "console (spawn_loop n i s) = console s"
proof (induction n i s rule: spawn_loop.induct)
  case (1 n i s)
  then show ?case
    by (subst spawn_loop.simps) (simp add: perform_def)
qed

lemma Start_workers:
  "contexts s \<noteq> [] \<Longrightarrow>
   workers (Start n s) = workers s @ map (\<lambda>k. worker_context (Num k)) [0..n - 1]"
  by (cases "contexts s") (simp_all add: Start_def perform_def workers_def spawn_loop_contexts)

lemma Start_coordinator:
  "contexts s \<noteq> [] \<Longrightarrow>
   coordinator (Start n s) =
     (coordinator s)\<lparr>timers := timers (coordinator s) @ [(1000, [Str ''Still alive!''])]\<rparr>"
  by (cases "contexts s") (simp_all add: Start_def perform_def coordinator_def spawn_loop_contexts)

lemma Start_console: "console (Start n s) = console s"
  by (simp add: Start_def perform_def spawn_loop_console)

lemma Start_nonempty: "contexts s \<noteq> [] \<Longrightarrow> contexts (Start n s) \<noteq> []"
  by (cases "contexts s") (simp_all add: Start_def perform_def spawn_loop_contexts)

lemma run_append:
  "run n (xs @ ys) s = (case run n xs s of None \<Rightarrow> None | Some s' \<Rightarrow> run n ys s')"
  by (induction xs arbitrary: s) (auto split: option.splits)


subsection \<open>Consequences of the invariant\<close>

lemma inv_ids:
  assumes "process_inv n s"
  shows "map workerData (workers s) = map (\<lambda>k. Num (int k)) [0..<length (workers s)]"
proof (rule nth_equalityI)
  fix k assume "k < length (map workerData (workers s))"
  then have k: "k < length (workers s)" by simp
  with inv_worker [OF assms k] show
    "map workerData (workers s) ! k = map (\<lambda>k. Num (int k)) [0..<length (workers s)] ! k"
    by (simp add: worker_inv_def)
qed simp

lemma inv_count:
  assumes "process_inv n s"
  shows "length (workers s) \<le> nat n"
    and "at (coordinator s) = At_setInterval \<or> at (coordinator s) = At_end
           \<Longrightarrow> length (workers s) = nat n"
    and "timers (coordinator s) \<noteq> [] \<Longrightarrow>
           at (coordinator s) = At_end \<and> length (workers s) = nat n \<and>
           timers (coordinator s) = [(1000, [Str ''Still alive!''])]"
  using inv_main [OF assms] by (auto simp: main_inv_def split: pc.splits)

lemma inv_entry:
  assumes i: "process_inv n s" and e: "e \<in> set (console s)"
  shows "e = (0, [Str ''Still alive!'']) \<and> at (coordinator s) = At_end \<or>
         (\<exists>k < length (workers s). e = (Suc k, [Str ''Started: '', Num (int k)]) \<and>
            in_loop (workers s ! k))"
proof (cases "fst e")
  case 0
  with e have "snd e \<in> set (lines_of 0 s)"
    by (force simp: lines_of_def)
  from inv_ticks [OF i this] 0 show ?thesis
    by (cases e) simp
next
  case (Suc k)
  with inv_console [OF i e] have k: "k < length (workers s)" by simp
  from e Suc have "snd e \<in> set (lines_of (Suc k) s)"
    by (force simp: lines_of_def)
  with inv_lines [OF i k] have "in_loop (workers s ! k)" "snd e = [Str ''Started: '', Num (int k)]"
    by (auto split: if_splits)
  with k Suc show ?thesis
    by (cases e) auto
qed

lemma count_list_map_snd:
  "count_list (map snd c) x = length (filter (\<lambda>e. snd e = x) c)"
  by (induction c) auto

lemma inv_started_once:
  assumes i: "process_inv n s" and k: "k < length (workers s)"
  shows "count_list (map snd (console s)) [Str ''Started: '', Num (int k)] =
           (if in_loop (workers s ! k) then 1 else 0)"
proof -
  have "filter (\<lambda>e. snd e = [Str ''Started: '', Num (int k)]) (console s) =
        filter (\<lambda>e. fst e = Suc k) (console s)"
  proof (rule filter_cong [OF refl])
    fix e assume "e \<in> set (console s)"
    from inv_entry [OF i this]
    show "(snd e = [Str ''Started: '', Num (int k)]) = (fst e = Suc k)"
      by auto
  qed
  then have "count_list (map snd (console s)) [Str ''Started: '', Num (int k)] =
      length (lines_of (Suc k) s)"
    by (simp add: count_list_map_snd lines_of_def)
  with inv_lines [OF i k] show ?thesis by simp
qed

lemma inv_alive: "process_inv n s \<Longrightarrow> alive s"
proof -
  assume i: "process_inv n s"
  then have "coordinator s \<in> set (contexts s)"
    by (simp add: process_inv_def coordinator_def)
  moreover from inv_main [OF i]
  have "at (coordinator s) \<noteq> At_end \<or> timers (coordinator s) \<noteq> []"
    by (auto simp: main_inv_def)
  ultimately show "alive s"
    unfolding alive_def by blast
qed

lemma inv_worker_enabled:
  assumes i: "process_inv n s" and k: "k < length (workers s)"
  shows "\<exists>s'. step n (Run (Suc k)) s = Some s'"
proof -
  from inv_worker [OF i k] obtain e c' where "script n (workers s ! k) = Some (e, c')"
    by (rule script_worker)
  with k inv_contexts [OF i] show ?thesis
    by simp
qed

lemma inv_tick_enabled:
  assumes i: "process_inv n s" and e: "at (coordinator s) = At_end"
  shows "step n (Tick 0 0) s = Some (s\<lparr>console := console s @ [(0, [Str ''Still alive!''])]\<rparr>)"
proof -
  from inv_main [OF i] e have "timers (coordinator s) = [(1000, [Str ''Still alive!''])]"
    by (simp add: main_inv_def)
  with e inv_contexts [OF i] show ?thesis
    by (simp add: perform_def interval_callback_def)
qed

lemma inv_main_enabled:
  assumes i: "process_inv n s" and e: "at (coordinator s) \<noteq> At_end"
  shows "\<exists>s'. step n (Run 0) s = Some s'"
proof -
  from e have "\<exists>r. script n (coordinator s) = Some r"
    by (cases "at (coordinator s)") (simp_all add: script_def)
  with inv_contexts [OF i] show ?thesis
    by auto
qed

lemma inv_progress: "process_inv n s \<Longrightarrow> \<exists>ev s'. step n ev s = Some s'"
  using inv_main_enabled inv_tick_enabled by blast

subsection \<open>What a step never undoes\<close>

lemma script_in_loop: "script n c = Some (e, c') \<Longrightarrow> in_loop c \<Longrightarrow> in_loop c'"
  by (auto simp: script_def in_loop_def)

lemma script_timers: "script n c = Some (e, c') \<Longrightarrow> timers c' = timers c"
  by (auto simp: script_def split: pc.splits if_splits)

lemma step_keeps:
  assumes st: "step n ev s = Some s'" and k: "k < length (contexts s)"
  shows "k < length (contexts s')"
    and "in_loop (contexts s ! k) \<Longrightarrow> in_loop (contexts s' ! k)"
    and "timers (contexts s ! k) \<noteq> [] \<Longrightarrow> timers (contexts s' ! k) \<noteq> []"
proof -
  have "k < length (contexts s') \<and>
        (in_loop (contexts s ! k) \<longrightarrow> in_loop (contexts s' ! k)) \<and>
        (timers (contexts s ! k) \<noteq> [] \<longrightarrow> timers (contexts s' ! k) \<noteq> [])"
  proof (cases ev)
    case (Run j)
    with st obtain e c' where j: "j < length (contexts s)"
      and sc: "script n (contexts s ! j) = Some (e, c')"
      and s': "s' = perform j e (s\<lparr>contexts := (contexts s)[j := c']\<rparr>)"
      by (auto split: if_splits option.splits)
    from script_in_loop [OF sc] script_timers [OF sc] k j show ?thesis
      by (cases e) (auto simp: s' perform_def nth_list_update nth_append in_loop_def)
  next
    case (Tick j t)
    with st k show ?thesis
      by (auto simp: perform_def interval_callback_def split: if_splits)
  qed
  then show "k < length (contexts s')"
    and "in_loop (contexts s ! k) \<Longrightarrow> in_loop (contexts s' ! k)"
    and "timers (contexts s ! k) \<noteq> [] \<Longrightarrow> timers (contexts s' ! k) \<noteq> []"
    by simp_all
qed

lemma run_keeps:
  "run n evs s = Some s' \<Longrightarrow> k < length (contexts s) \<Longrightarrow>
   k < length (contexts s') \<and>
   (in_loop (contexts s ! k) \<longrightarrow> in_loop (contexts s' ! k)) \<and>
   (timers (contexts s ! k) \<noteq> [] \<longrightarrow> timers (contexts s' ! k) \<noteq> [])"
proof (induction evs arbitrary: s)
  case Nil
  then show ?case by simp
next
  case (Cons ev evs)
  from Cons.prems obtain s1 where 1: "step n ev s = Some s1" and 2: "run n evs s1 = Some s'"
    by (auto split: option.splits)
  from step_keeps [OF 1 Cons.prems(2)] Cons.IH [OF 2] show ?case
    by blast
qed

subsection \<open>One thread on its own\<close>

lemma trace_end: "at c = At_end \<Longrightarrow> trace n k c = []"
  by (cases k) (simp_all add: script_def)

lemma trace_loop:
  "at c = At_while \<Longrightarrow> trace n (2 * k) c = concat (replicate k [Silent, Math_random])"
proof (induction k arbitrary: c)
  case 0
  show ?case by simp
next
  case (Suc k)
  have "at (c\<lparr>at := At_while\<rparr>) = At_while" by simp
  from Suc.IH [OF this] Suc.prems show ?case
    by (simp add: script_def)
qed

lemma trace_worker:
  "trace n (2 + 2 * k) (worker_context d) =
     Silent # Console_log [Str ''Started: '', d] # concat (replicate k [Silent, Math_random])"
proof -
  have "at (worker_context d\<lparr>at := At_while\<rparr>) = At_while" by simp
  from trace_loop [OF this, of n k] show ?thesis
    by (simp add: script_def worker_context_def)
qed

lemma trace_worker_effects:
  "\<not> isMainThread c \<Longrightarrow> at c = At_if \<or> at c = At_log \<or> at c = At_while \<or> at c = At_random \<Longrightarrow>
   length (trace n k c) = k \<and>
   set (trace n k c) \<subseteq> {Silent, Math_random, Console_log [Str ''Started: '', workerData c]}"
proof (induction k arbitrary: c)
  case 0
  show ?case by simp
next
  case (Suc k)
  from Suc.prems obtain e c' where sc: "script n c = Some (e, c')"
    and c': "\<not> isMainThread c'" "workerData c' = workerData c"
      "at c' = At_if \<or> at c' = At_log \<or> at c' = At_while \<or> at c' = At_random"
    and e: "e \<in> {Silent, Math_random, Console_log [Str ''Started: '', workerData c]}"
    by (auto simp: script_def)
  from Suc.IH [OF c'(1) c'(3)] sc e c'(2) show ?case
    by auto
qed

lemma trace_main_loop:
  "at c = At_for \<Longrightarrow> loop_i c = i \<Longrightarrow> m = nat (n - i) \<Longrightarrow>
   trace n (2 * m + 2 + j) c =
     concat (map (\<lambda>k. [Silent, New_Worker (Num k)]) [i..n - 1]) @
     [Silent, Set_Interval 1000 [Str ''Still alive!'']]"
proof (induction m arbitrary: c i)
  case 0
  then have "\<not> i < n" "[i..n - 1] = []" by simp_all
  with 0 show ?case
    by (simp add: script_def trace_end)
next
  case (Suc m)
  then have lt: "i < n" and m: "m = nat (n - (i + 1))" by simp_all
  from lt have u: "[i..n - 1] = i # [i + 1..n - 1]"
    by (simp add: upto_rec1)
  have "at (c\<lparr>at := At_for, loop_i := i + 1\<rparr>) = At_for"
    "loop_i (c\<lparr>at := At_for, loop_i := i + 1\<rparr>) = i + 1" by simp_all
  from Suc.IH [OF this m] Suc.prems(1,2) lt show ?case
    by (simp add: script_def u)
qed

lemma trace_main:
  "trace n (2 * nat n + 3 + j) main_context =
     Silent # concat (map (\<lambda>k. [Silent, New_Worker (Num k)]) [0..n - 1]) @
     [Silent, Set_Interval 1000 [Str ''Still alive!'']]"
proof -
  define c where "c = main_context\<lparr>at := At_for, loop_i := 0\<rparr>"
  have s1: "script n main_context = Some (Silent, c)"
    by (simp add: script_def main_context_def c_def)
  have e: "2 * nat n + 3 + j = Suc (2 * nat n + 2 + j)" by simp
  have "at c = At_for" "loop_i c = 0" "nat n = nat (n - 0)"
    by (simp_all add: c_def)
  from trace_main_loop [OF this, of j] show ?thesis
    unfolding e trace.simps s1 by simp
qed

lemma spawn_requests_append: "spawn_requests (xs @ ys) = spawn_requests xs @ spawn_requests ys"
  by (induction xs rule: spawn_requests.induct) simp_all

lemma spawn_requests_loop:
  "spawn_requests (concat (map (\<lambda>k. [Silent, New_Worker (Num k)]) ks)) = map Num ks"
  by (induction ks) simp_all

lemma spawn_requests_main:
  "spawn_requests (trace n (2 * nat n + 3 + j) main_context) = map Num [0..n - 1]"
  by (simp add: trace_main spawn_requests_append spawn_requests_loop)

subsection \<open>The main thread running alone\<close>

lemma run_first: "run n [Run 0] initial = Some (spawning 0)"
  by (simp add: initial_def spawning_def main_context_def script_def perform_def)

lemma run_iteration:
  assumes "0 \<le> i" and "i < n"
  shows "run n [Run 0, Run 0] (spawning i) = Some (spawning (i + 1))"
proof -
  from assms have "[0..i] = [0..i - 1] @ [i]"
    by (simp add: upto_rec2)
  with assms show ?thesis
    by (simp add: spawning_def main_context_def script_def perform_def)
qed

lemma run_iterations:
  "0 \<le> i \<Longrightarrow> m = nat (n - i) \<Longrightarrow>
   run n (replicate (2 * m) (Run 0)) (spawning i) = Some (spawning (max i n))"
proof (induction m arbitrary: i)
  case 0
  then show ?case by (simp add: max_def)
next
  case (Suc m)
  then have lt: "i < n" and m: "m = nat (n - (i + 1))" and i: "0 \<le> i + 1"
    by simp_all
  have "replicate (2 * Suc m) (Run 0) = [Run 0, Run 0] @ replicate (2 * m) (Run 0)"
    by simp
  with run_iteration [OF Suc.prems(1) lt] Suc.IH [OF i m] lt show ?case
    by (simp only: run_append option.case) (simp add: max_def)
qed

lemma run_last:
  assumes "0 \<le> i" and "\<not> i < n"
  shows "run n [Run 0, Run 0] (spawning i) =
    Some \<lparr>contexts = main_context\<lparr>at := At_end, loop_i := i,
                      timers := [(1000, [Str ''Still alive!''])]\<rparr> #
                   map (\<lambda>k. worker_context (Num k)) [0..i - 1],
      console = []\<rparr>"
  using assms by (simp add: spawning_def main_context_def script_def perform_def)

lemma replicate_plus_3: "replicate (k + 3) x = [x] @ replicate k x @ [x, x]"
  by (induction k) (simp_all add: numeral_3_eq_3)

lemma run_main_alone: "run n (replicate (2 * nat n + 3) (Run 0)) initial = Some (spawned n)"
proof -
  have r: "replicate (2 * nat n + 3) (Run 0) =
      [Run 0] @ replicate (2 * nat n) (Run 0) @ [Run 0, Run 0]"
    by (rule replicate_plus_3)
  have 1: "run n (replicate (2 * nat n) (Run 0)) (spawning 0) = Some (spawning (max 0 n))"
    by (rule run_iterations) simp_all
  have 2: "run n [Run 0, Run 0] (spawning (max 0 n)) = Some (spawned n)"
  proof -
    have "[0..max 0 n - 1] = [0..n - 1]"
      by (simp add: max_def)
    with run_last [of "max 0 n" n] show ?thesis
      by (simp add: spawned_def)
  qed
  show ?thesis
    unfolding r by (simp only: run_append run_first 1 2 option.case)
qed

lemma Start_initial:
  "Start n initial =
     \<lparr>contexts = main_context\<lparr>timers := [(1000, [Str ''Still alive!''])]\<rparr> #
                   map (\<lambda>k. worker_context (Num k)) [0..n - 1],
      console = []\<rparr>"
  by (simp add: Start_def perform_def spawn_loop_contexts spawn_loop_console initial_def
      main_context_def)

lemma spawned_Start:
  "workers (spawned n) = workers (Start n initial) \<and>
   console (spawned n) = console (Start n initial) \<and>
   timers (coordinator (spawned n)) = timers (coordinator (Start n initial)) \<and>
   at (coordinator (spawned n)) = At_end"
  by (simp add: Start_initial spawned_def workers_def coordinator_def main_context_def)

subsection \<open>The workers starting one after the other\<close>

lemma run_worker_start:
  assumes "0 \<le> j" and "j < n"
  shows "run n [Run (nat j + 1), Run (nat j + 1)] (started_upto n j) =
           Some (started_upto n (j + 1))"
proof -
  from assms have u1: "[j..n - 1] = j # [j + 1..n - 1]"
    by (simp add: upto_rec1)
  from assms(1) have u2: "[0..j] = [0..j - 1] @ [j]"
    by (rule upto_rec2)
  note u = u1 u2
  from assms have l: "length [0..j - 1] = nat j"
    by simp
  define A where "A = map (\<lambda>k. (worker_context (Num k))\<lparr>at := At_while\<rparr>) [0..j - 1]"
  define B where "B = map (\<lambda>k. worker_context (Num k)) [j + 1..n - 1]"
  define m where "m = main_context\<lparr>at := At_end, loop_i := max 0 n,
                      timers := [(1000, [Str ''Still alive!''])]\<rparr>"
  have la: "length A = nat j"
    by (simp add: A_def l)
  have s0: "started_upto n j =
      \<lparr>contexts = m # A @ worker_context (Num j) # B,
       console = map (\<lambda>k. (nat k + 1, [Str ''Started: '', Num k])) [0..j - 1]\<rparr>"
    by (simp add: started_upto_def u A_def B_def m_def)
  have s1: "started_upto n (j + 1) =
      \<lparr>contexts = m # A @ (worker_context (Num j))\<lparr>at := At_while\<rparr> # B,
       console = map (\<lambda>k. (nat k + 1, [Str ''Started: '', Num k])) [0..j - 1] @
         [(nat j + 1, [Str ''Started: '', Num j])]\<rparr>"
    by (simp add: started_upto_def u A_def B_def m_def)
  have n1: "(A @ c # B) ! nat j = c" "(A @ c # B)[nat j := c'] = A @ c' # B" for c c'
    using la by (simp_all add: nth_append list_update_append)
  show ?thesis
    unfolding s0 s1
    by (simp add: n1 la script_def perform_def worker_context_def)
qed

lemma run_workers_start:
  "0 \<le> j \<Longrightarrow> m = nat (n - j) \<Longrightarrow>
   run n (concat (map (\<lambda>k. [Run (nat k + 1), Run (nat k + 1)]) [j..n - 1])) (started_upto n j) =
     Some (started_upto n (max j n))"
proof (induction m arbitrary: j)
  case 0
  then have "[j..n - 1] = []" "max j n = j" by simp_all
  then show ?case by simp
next
  case (Suc m)
  then have lt: "j < n" and m: "m = nat (n - (j + 1))" and j: "0 \<le> j + 1"
    by simp_all
  from lt have u: "[j..n - 1] = j # [j + 1..n - 1]"
    by (simp add: upto_rec1)
  from lt have mx: "max j n = max (j + 1) n"
    by simp
  have "concat (map (\<lambda>k. [Run (nat k + 1), Run (nat k + 1)]) [j..n - 1]) =
      [Run (nat j + 1), Run (nat j + 1)] @
      concat (map (\<lambda>k. [Run (nat k + 1), Run (nat k + 1)]) [j + 1..n - 1])"
    by (simp add: u)
  with run_worker_start [OF Suc.prems(1) lt] Suc.IH [OF j m] show ?case
    by (simp only: run_append option.case mx)
qed

lemma started_upto_0: "started_upto n 0 = spawned n"
  by (simp add: started_upto_def spawned_def)

lemma run_in_order: "run n (in_order_schedule n) initial = Some (started_upto n (max 0 n))"
proof -
  have "run n (concat (map (\<lambda>k. [Run (nat k + 1), Run (nat k + 1)]) [0..n - 1]))
      (started_upto n 0) = Some (started_upto n (max 0 n))"
    by (rule run_workers_start) simp_all
  with run_main_alone [of n] show ?thesis
    by (simp only: in_order_schedule_def run_append option.case started_upto_0)
qed

lemma all_started:
  "contexts (started_upto n (max 0 n)) =
     main_context\<lparr>at := At_end, loop_i := max 0 n,
                   timers := [(1000, [Str ''Still alive!''])]\<rparr> #
     map (\<lambda>k. (worker_context (Num k))\<lparr>at := At_while\<rparr>) [0..n - 1]"
  "console (started_upto n (max 0 n)) =
     map (\<lambda>k. (nat k + 1, [Str ''Started: '', Num k])) [0..n - 1]"
proof -
  have "[max 0 n..n - 1] = []" "[0..max 0 n - 1] = [0..n - 1]"
    by (simp_all add: max_def)
  then show "contexts (started_upto n (max 0 n)) =
     main_context\<lparr>at := At_end, loop_i := max 0 n,
                   timers := [(1000, [Str ''Still alive!''])]\<rparr> #
     map (\<lambda>k. (worker_context (Num k))\<lparr>at := At_while\<rparr>) [0..n - 1]"
    "console (started_upto n (max 0 n)) =
     map (\<lambda>k. (nat k + 1, [Str ''Started: '', Num k])) [0..n - 1]"
    by (simp_all add: started_upto_def)
qed

subsection \<open>The text of the lines\<close>

lemma of_char_digits:
  "\<forall>d \<in> set [0..<10]. of_char (''0123456789'' ! d) = (48 + d :: nat)"
  by code_simp

lemma of_char_digit: "d < 10 \<Longrightarrow> of_char (''0123456789'' ! d) = (48 + d :: nat)"
  using of_char_digits by simp

lemma read_digits_snoc:
  "read_digits (ds @ [c]) = 10 * read_digits ds + (of_char c - 48)"
  by (simp add: read_digits_def)

lemma read_digits_digits: "read_digits (digits n) = n"
proof (induction n rule: digits.induct)
  case (1 n)
  show ?case
  proof (cases "n < 10")
    case True
    then show ?thesis
      by (subst digits.simps) (simp add: read_digits_def of_char_digit)
  next
    case False
    then have "read_digits (digits (n div 10)) = n div 10"
      by (rule 1)
    with False show ?thesis
      by (subst digits.simps) (simp add: read_digits_snoc of_char_digit)
  qed
qed

lemma digits_inj: "digits m = digits n \<Longrightarrow> m = n"
  by (metis read_digits_digits)

lemma format_started: "format_log [Str ''Started: '', Num (int k)] = ''Started:  '' @ digits k"
  by simp

lemma format_alive: "format_log [Str ''Still alive!''] = ''Still alive!''"
  by simp

lemma count_list_map: "count_list (map f c) x = length (filter (\<lambda>e. f e = x) c)"
  by (induction c) auto

lemma inv_started_text_once:
  assumes i: "process_inv n s" and k: "k < length (workers s)"
  shows "count_list (map (\<lambda>e. format_log (snd e)) (console s)) (''Started:  '' @ digits k) =
           (if in_loop (workers s ! k) then 1 else 0)"
proof -
  have "filter (\<lambda>e. format_log (snd e) = ''Started:  '' @ digits k) (console s) =
        filter (\<lambda>e. fst e = Suc k) (console s)"
  proof (rule filter_cong [OF refl])
    fix e assume "e \<in> set (console s)"
    from inv_entry [OF i this]
    show "(format_log (snd e) = ''Started:  '' @ digits k) = (fst e = Suc k)"
      by (auto dest: digits_inj)
  qed
  then have "count_list (map (\<lambda>e. format_log (snd e)) (console s)) (''Started:  '' @ digits k) =
      length (lines_of (Suc k) s)"
    by (simp add: count_list_map lines_of_def)
  with inv_lines [OF i k] show ?thesis by simp
qed

subsection \<open>The worker's branch never returns\<close>

lemma while_true_Some: "while_true k s = Some y \<Longrightarrow> False"
  by (rule while_true.raw_induct [where P = "\<lambda>_ _ _. False"]) blast+

lemma while_true_None: "while_true k s = None"
  using while_true_Some [of k s] by (cases "while_true k s") auto

lemma worker_branch_None: "worker_branch k s = None"
  by (simp add: worker_branch_def while_true_None)

subsection \<open>The two runs\<close>

lemma demo_run: "run 8 demo_schedule initial = Some demo_state"
  by code_simp

lemma idle_run: "run 0 idle_schedule initial = Some idle_state"
  by code_simp

subsection \<open>Identifiers\<close>

lemma ids_upto: "0 \<le> n \<Longrightarrow> (\<lambda>k. Num (int k)) ` {0..<nat n} = Num ` {0..n - 1}"
proof -
  assume n: "0 \<le> n"
  have "int ` {0..<nat n} = {0..n - 1}"
  proof (rule set_eqI)
    fix x
    show "x \<in> int ` {0..<nat n} \<longleftrightarrow> x \<in> {0..n - 1}"
    proof
      assume "x \<in> int ` {0..<nat n}"
      then show "x \<in> {0..n - 1}" by auto
    next
      assume x: "x \<in> {0..n - 1}"
      then have "x = int (nat x)" "nat x \<in> {0..<nat n}" by auto
      then show "x \<in> int ` {0..<nat n}" by (rule image_eqI)
    qed
  qed
  then have "Num ` int ` {0..<nat n} = Num ` {0..n - 1}" by simp
  then show ?thesis by (simp add: image_image)
qed

lemma upt_upto: "map int [0..<nat n] = [0..n - 1]"
proof -
  have "map int [0..<m] = [0..int m - 1]" for m
  proof (induction m)
    case 0
    show ?case by simp
  next
    case (Suc m)
    have "[0..int m] = [0..int m - 1] @ [int m]"
      by (rule upto_rec2) simp
    with Suc show ?case by simp
  qed
  from this [of "nat n"] show ?thesis
    by (cases "0 \<le> n") simp_all
qed

lemma ids_distinct: "distinct (map (\<lambda>k. Num (int k)) [0..<m])"
  by (simp add: distinct_map inj_on_def)

text \<open>
  C1. For every \<open>workerCount = N \<ge> 1\<close>, starting the demo creates exactly \<open>N\<close> workers,
  with the identifiers \<open>0, ..., N - 1\<close>, each once; every worker that has printed has
  exactly one \<open>Started:\<close> line with its identifier on the console, and the console holds
  nothing but such lines and \<open>Still alive!\<close>.
\<close>

theorem Start_creates_workers:
  assumes "1 \<le> N" and "run N evs initial = Some s"
  shows "length (workers s) \<le> nat N \<and>
    map workerData (workers s) = map (\<lambda>k. Num (int k)) [0..<length (workers s)] \<and>
    (at (coordinator s) = At_setInterval \<or> at (coordinator s) = At_end \<longrightarrow>
       length (workers s) = nat N \<and> distinct (map workerData (workers s)) \<and>
       set (map workerData (workers s)) = Num ` {0..N - 1}) \<and>
    (\<forall>k < length (workers s).
       count_list (map snd (console s)) [Str ''Started: '', Num (int k)] =
         (if in_loop (workers s ! k) then 1 else 0) \<and>
       count_list (map (\<lambda>e. format_log (snd e)) (console s)) (''Started:  '' @ digits k) =
         (if in_loop (workers s ! k) then 1 else 0)) \<and>
    (\<forall>e \<in> set (console s). snd e = [Str ''Still alive!''] \<or>
       (\<exists>k < length (workers s). in_loop (workers s ! k) \<and>
          snd e = [Str ''Started: '', Num (int k)])) \<and>
    workers (Start N initial) = map (\<lambda>k. worker_context (Num k)) [0..N - 1] \<and>
    run N (in_order_schedule N) initial = Some (started_upto N N) \<and>
    workers (started_upto N N) =
      map (\<lambda>k. (worker_context (Num k))\<lparr>at := At_while\<rparr>) [0..N - 1] \<and>
    console (started_upto N N) =
      map (\<lambda>k. (nat k + 1, [Str ''Started: '', Num k])) [0..N - 1]"
proof -
  from assms(2) have i: "process_inv N s"
    by (rule reachable_inv)
  have ids: "map workerData (workers s) = map (\<lambda>k. Num (int k)) [0..<length (workers s)]"
    using i by (rule inv_ids)
  have full: "length (workers s) = nat N \<and> distinct (map workerData (workers s)) \<and>
       set (map workerData (workers s)) = Num ` {0..N - 1}"
    if "at (coordinator s) = At_setInterval \<or> at (coordinator s) = At_end"
  proof -
    from inv_count(2) [OF i that] have l: "length (workers s) = nat N" .
    from assms(1) have "0 \<le> N" by simp
    from ids_upto [OF this] ids l ids_distinct [of "nat N"] show ?thesis
      by simp
  qed
  have lines: "snd e = [Str ''Still alive!''] \<or>
       (\<exists>k < length (workers s). in_loop (workers s ! k) \<and>
          snd e = [Str ''Started: '', Num (int k)])" if "e \<in> set (console s)" for e
    using inv_entry [OF i that] by auto
  have 3: "at (coordinator s) = At_setInterval \<or> at (coordinator s) = At_end \<longrightarrow>
       length (workers s) = nat N \<and> distinct (map workerData (workers s)) \<and>
       set (map workerData (workers s)) = Num ` {0..N - 1}"
    using full by blast
  have 4: "\<forall>k < length (workers s).
       count_list (map snd (console s)) [Str ''Started: '', Num (int k)] =
         (if in_loop (workers s ! k) then 1 else 0) \<and>
       count_list (map (\<lambda>e. format_log (snd e)) (console s)) (''Started:  '' @ digits k) =
         (if in_loop (workers s ! k) then 1 else 0)"
    using inv_started_once [OF i] inv_started_text_once [OF i] by blast
  have 5: "\<forall>e \<in> set (console s). snd e = [Str ''Still alive!''] \<or>
       (\<exists>k < length (workers s). in_loop (workers s ! k) \<and>
          snd e = [Str ''Started: '', Num (int k)])"
    using lines by blast
  have 6: "workers (Start N initial) = map (\<lambda>k. worker_context (Num k)) [0..N - 1]"
    by (simp add: Start_initial workers_def)
  from assms(1) have mx: "max 0 N = N"
    by simp
  have 7: "run N (in_order_schedule N) initial = Some (started_upto N N)"
    using run_in_order [of N] by (simp only: mx)
  have 8: "workers (started_upto N N) =
      map (\<lambda>k. (worker_context (Num k))\<lparr>at := At_while\<rparr>) [0..N - 1]"
    using all_started(1) [of N] by (simp only: mx workers_def list.sel)
  have 9: "console (started_upto N N) =
      map (\<lambda>k. (nat k + 1, [Str ''Started: '', Num k])) [0..N - 1]"
    using all_started(2) [of N] by (simp only: mx)
  from inv_count(1) [OF i] ids 3 4 5 6 7 8 9 show ?thesis
    by blast
qed

theorem Start_creates_workers_witness:
  "(1::int) \<le> 8 \<and> run 8 demo_schedule initial = Some demo_state \<and>
   length (workers demo_state) = 8 \<and>
   map workerData (workers demo_state) =
     [Num 0, Num 1, Num 2, Num 3, Num 4, Num 5, Num 6, Num 7] \<and>
   count_list (map snd (console demo_state)) [Str ''Started: '', Num 5] = 1 \<and>
   count_list (map (\<lambda>e. format_log (snd e)) (console demo_state)) ''Started:  5'' = 1 \<and>
   workers (Start 8 initial) = map (\<lambda>k. worker_context (Num k)) [0, 1, 2, 3, 4, 5, 6, 7]"
proof -
  have e: "at (coordinator demo_state) = At_end" "in_loop (workers demo_state ! 5)"
    "5 < length (workers demo_state)"
    by code_simp+
  have u: "[0..<nat 8] = [0, 1, 2, 3, 4, 5, 6, 7]" "[0..(8::int) - 1] = [0, 1, 2, 3, 4, 5, 6, 7]"
    and d: "''Started:  '' @ digits 5 = ''Started:  5''"
    by code_simp+
  have 1: "(1::int) \<le> 8" by simp
  note t = Start_creates_workers [OF 1 demo_run]
  from t e(1) have l: "length (workers demo_state) = nat 8"
    by blast
  from t have "map workerData (workers demo_state) =
      map (\<lambda>k. Num (int k)) [0..<length (workers demo_state)]"
    by blast
  with l u have m: "map workerData (workers demo_state) =
     [Num 0, Num 1, Num 2, Num 3, Num 4, Num 5, Num 6, Num 7]"
    by simp
  from t have "5 < length (workers demo_state) \<longrightarrow>
      count_list (map snd (console demo_state)) [Str ''Started: '', Num (int 5)] =
        (if in_loop (workers demo_state ! 5) then 1 else 0) \<and>
      count_list (map (\<lambda>e. format_log (snd e)) (console demo_state))
        (''Started:  '' @ digits 5) = (if in_loop (workers demo_state ! 5) then 1 else 0)"
    by blast
  with e d have c: "count_list (map snd (console demo_state)) [Str ''Started: '', Num 5] = 1"
    "count_list (map (\<lambda>e. format_log (snd e)) (console demo_state)) ''Started:  5'' = 1"
    by simp_all
  from t have "workers (Start 8 initial) = map (\<lambda>k. worker_context (Num k)) [0..8 - 1]"
    by blast
  with u have w: "workers (Start 8 initial) =
      map (\<lambda>k. worker_context (Num k)) [0, 1, 2, 3, 4, 5, 6, 7]"
    by simp
  from l m c w demo_run show ?thesis
    by simp
qed

subsection \<open>Steps of a worker\<close>

lemma worker_nth: "process_inv n s \<Longrightarrow> contexts s ! Suc k = workers s ! k"
  by (drule inv_contexts) (metis nth_Cons_Suc)

lemma coordinator_nth: "process_inv n s \<Longrightarrow> contexts s ! 0 = coordinator s"
  by (drule inv_contexts) (metis nth_Cons_0)

lemma length_contexts: "process_inv n s \<Longrightarrow> length (contexts s) = Suc (length (workers s))"
  by (drule inv_contexts) (metis length_Cons)

lemma worker_step:
  assumes i: "process_inv n s" and st: "step n (Run (Suc k)) s = Some s'"
  shows "length (contexts s') = length (contexts s) \<and>
         map timers (contexts s') = map timers (contexts s)"
proof -
  from st length_contexts [OF i] have k: "k < length (workers s)"
    by (simp split: if_splits)
  from inv_worker [OF i k] obtain e c' where sc: "script n (workers s ! k) = Some (e, c')"
    and e: "e = Console_log [Str ''Started: '', Num (int k)] \<and> \<not> in_loop (workers s ! k) \<and> in_loop c' \<or>
     (e = Silent \<or> e = Math_random) \<and> in_loop c' = in_loop (workers s ! k)"
    by (rule script_worker)
  from st k sc length_contexts [OF i] worker_nth [OF i, of k]
  have s': "s' = perform (Suc k) e (s\<lparr>contexts := (contexts s)[Suc k := c']\<rparr>)"
    by simp
  from script_timers [OF sc] worker_nth [OF i, of k]
  have "(map timers (contexts s))[Suc k := timers c'] = map timers (contexts s)"
    by (simp add: list_update_same_conv length_contexts [OF i] k)
  with e show ?thesis
    by (auto simp: s' perform_def map_update)
qed

lemma loop_step:
  assumes i: "process_inv n s" and k: "k < length (workers s)" and l: "in_loop (workers s ! k)"
  shows "step n (Run (Suc k)) s =
    Some (s\<lparr>contexts := (contexts s)[Suc k := (workers s ! k)
      \<lparr>at := if at (workers s ! k) = At_while then At_random else At_while\<rparr>]\<rparr>)"
  using l k length_contexts [OF i] worker_nth [OF i, of k]
  by (auto simp: in_loop_def script_def perform_def)

text \<open>
  C2. The process never terminates on its own: in every reachable state it is alive and can
  take a step, no worker has run to the end and each can take its next step, and however
  the run goes on, a worker in its loop stays in its loop and an installed timer stays
  installed. A worker's own sequence of effects has every length, and its branch, taken
  as one function, does not return.
\<close>

theorem process_never_terminates:
  assumes "run N evs initial = Some s"
  shows "alive s \<and> (\<exists>ev s'. step N ev s = Some s') \<and>
    (\<forall>k < length (workers s).
       at (workers s ! k) \<noteq> At_end \<and> (\<exists>s'. step N (Run (Suc k)) s = Some s')) \<and>
    (\<forall>evs' s'. run N evs' s = Some s' \<longrightarrow> alive s' \<and>
       (\<forall>k < length (contexts s). k < length (contexts s') \<and>
          (in_loop (contexts s ! k) \<longrightarrow> in_loop (contexts s' ! k)) \<and>
          (timers (contexts s ! k) \<noteq> [] \<longrightarrow>
             timers (contexts s' ! k) = timers (contexts s ! k)))) \<and>
    (\<forall>j d. length (trace N j (worker_context d)) = j) \<and>
    (\<forall>k s0. worker_branch k s0 = None)"
proof -
  from assms have i: "process_inv N s"
    by (rule reachable_inv)
  have w: "at (workers s ! k) \<noteq> At_end \<and> (\<exists>s'. step N (Run (Suc k)) s = Some s')"
    if "k < length (workers s)" for k
    using inv_worker [OF i that] inv_worker_enabled [OF i that]
    by (auto simp: worker_inv_def)
  have later: "alive s' \<and>
       (\<forall>k < length (contexts s). k < length (contexts s') \<and>
          (in_loop (contexts s ! k) \<longrightarrow> in_loop (contexts s' ! k)) \<and>
          (timers (contexts s ! k) \<noteq> [] \<longrightarrow>
             timers (contexts s' ! k) = timers (contexts s ! k)))"
    if r: "run N evs' s = Some s'" for evs' s'
  proof -
    from i r have i': "process_inv N s'"
      by (rule run_preserves)
    have "timers (contexts s' ! k) = timers (contexts s ! k)"
      if k: "k < length (contexts s)" and t: "timers (contexts s ! k) \<noteq> []" for k
    proof (cases k)
      case 0
      from run_keeps [OF r k] t have "timers (contexts s' ! k) \<noteq> []"
        by simp
      with 0 t inv_count(3) [OF i] inv_count(3) [OF i'] coordinator_nth [OF i]
        coordinator_nth [OF i'] show ?thesis
        by simp
    next
      case (Suc j)
      with k length_contexts [OF i] have "j < length (workers s)"
        by simp
      from inv_worker [OF i this] t Suc worker_nth [OF i, of j] show ?thesis
        by (simp add: worker_inv_def)
    qed
    with run_keeps [OF r] inv_alive [OF i'] show ?thesis
      by blast
  qed
  have tr: "length (trace N j (worker_context d)) = j" for j d
    using trace_worker_effects [of "worker_context d" N j]
    by (simp add: worker_context_def)
  from inv_alive [OF i] inv_progress [OF i] w later tr worker_branch_None show ?thesis
    by blast
qed

theorem process_never_terminates_witness:
  "run 8 demo_schedule initial = Some demo_state \<and> alive demo_state \<and>
   at (workers demo_state ! 0) \<noteq> At_end \<and>
   length (trace 8 100 (worker_context (Num 3))) = 100 \<and>
   worker_branch 1 demo_state = None"
proof -
  note t = process_never_terminates [OF demo_run]
  have l: "0 < length (workers demo_state)"
    by code_simp
  from t have a: "alive demo_state"
    by blast
  from t l have b: "at (workers demo_state ! 0) \<noteq> At_end"
    by blast
  from t have c: "length (trace 8 100 (worker_context (Num 3))) = 100"
    by blast
  from t have d: "worker_branch 1 demo_state = None"
    by blast
  from a b c d demo_run show ?thesis
    by simp
qed

text \<open>
  C3. Every worker first emits one log line, \<open>Started: \<close> and its identifier, and then
  loops for ever on \<open>Math.random()\<close>, which changes nothing but the worker's own position
  in the loop; the worker never emits another line and never ends.
\<close>

theorem worker_logs_once_then_spins:
  assumes "run N evs initial = Some s" and "k < length (workers s)"
  shows "(at (workers s ! k) = At_if \<or> at (workers s ! k) = At_log \<or> in_loop (workers s ! k)) \<and>
    lines_of (Suc k) s =
      (if in_loop (workers s ! k) then [[Str ''Started: '', Num (int k)]] else []) \<and>
    format_log [Str ''Started: '', Num (int k)] = ''Started:  '' @ digits k \<and>
    (\<exists>s'. step N (Run (Suc k)) s = Some s') \<and>
    (in_loop (workers s ! k) \<longrightarrow>
       step N (Run (Suc k)) s =
         Some (s\<lparr>contexts := (contexts s)[Suc k := (workers s ! k)
           \<lparr>at := if at (workers s ! k) = At_while then At_random else At_while\<rparr>]\<rparr>)) \<and>
    (\<forall>j. trace N (2 + 2 * j) (worker_context (Num (int k))) =
       Silent # Console_log [Str ''Started: '', Num (int k)] #
       concat (replicate j [Silent, Math_random]))"
proof -
  from assms(1) have i: "process_inv N s"
    by (rule reachable_inv)
  have 1: "at (workers s ! k) = At_if \<or> at (workers s ! k) = At_log \<or> in_loop (workers s ! k)"
    using inv_worker [OF i assms(2)] by (auto simp: worker_inv_def in_loop_def)
  have 3: "format_log [Str ''Started: '', Num (int k)] = ''Started:  '' @ digits k"
    by simp
  have 5: "in_loop (workers s ! k) \<longrightarrow>
       step N (Run (Suc k)) s =
         Some (s\<lparr>contexts := (contexts s)[Suc k := (workers s ! k)
           \<lparr>at := if at (workers s ! k) = At_while then At_random else At_while\<rparr>]\<rparr>)"
    using loop_step [OF i assms(2)] by blast
  have 6: "\<forall>j. trace N (2 + 2 * j) (worker_context (Num (int k))) =
       Silent # Console_log [Str ''Started: '', Num (int k)] #
       concat (replicate j [Silent, Math_random])"
    using trace_worker by blast
  from 1 inv_lines [OF i assms(2)] 3 inv_worker_enabled [OF i assms(2)] 5 6 show ?thesis
    by blast
qed

theorem worker_logs_once_then_spins_witness:
  "run 8 demo_schedule initial = Some demo_state \<and> (7::nat) < length (workers demo_state) \<and>
   in_loop (workers demo_state ! 7) \<and>
   lines_of 8 demo_state = [[Str ''Started: '', Num 7]] \<and>
   format_log [Str ''Started: '', Num 7] = ''Started:  7'' \<and>
   trace 8 6 (worker_context (Num 7)) =
     [Silent, Console_log [Str ''Started: '', Num 7], Silent, Math_random, Silent, Math_random]"
proof -
  have l: "(7::nat) < length (workers demo_state)" and il: "in_loop (workers demo_state ! 7)"
    by code_simp+
  note t = worker_logs_once_then_spins [OF demo_run l]
  from t il have a: "lines_of 8 demo_state = [[Str ''Started: '', Num 7]]"
    by simp
  from t have "format_log [Str ''Started: '', Num (int 7)] = ''Started:  '' @ digits 7"
    by blast
  moreover have "digits 7 = ''7''"
    by code_simp
  ultimately have b: "format_log [Str ''Started: '', Num 7] = ''Started:  7''"
    by simp
  from t have "trace 8 (2 + 2 * 2) (worker_context (Num (int 7))) =
       Silent # Console_log [Str ''Started: '', Num (int 7)] #
       concat (replicate 2 [Silent, Math_random])"
    by blast
  moreover have "concat (replicate 2 [Silent, Math_random]) =
      [Silent, Math_random, Silent, Math_random]"
    by (simp add: numeral_2_eq_2)
  ultimately have c: "trace 8 6 (worker_context (Num 7)) =
     [Silent, Console_log [Str ''Started: '', Num 7], Silent, Math_random, Silent, Math_random]"
    by simp
  from demo_run l il a b c show ?thesis
    by simp
qed

text \<open>
  C4. The main thread installs its timer only after all its spawn requests: its effects are
  the \<open>workerCount\<close> requests and then \<open>setInterval\<close>, a timer is installed only when all
  workers exist, its period is 1000 and its argument \<open>Still alive!\<close>, and every tick, of the
  main thread's timer and of no other, appends the line \<open>Still alive!\<close>.
\<close>

theorem timer_after_spawns:
  assumes "run N evs initial = Some s"
  shows "(timers (coordinator s) = [] \<or>
       timers (coordinator s) = [(1000, [Str ''Still alive!''])]) \<and>
    (timers (coordinator s) \<noteq> [] \<longrightarrow>
       length (workers s) = nat N \<and> at (coordinator s) = At_end \<and>
       step N (Tick 0 0) s =
         Some (s\<lparr>console := console s @ [(0, [Str ''Still alive!''])]\<rparr>)) \<and>
    (\<forall>k j s'. step N (Tick k j) s = Some s' \<longrightarrow>
       k = 0 \<and> j = 0 \<and> s' = s\<lparr>console := console s @ [(0, [Str ''Still alive!''])]\<rparr>) \<and>
    format_log [Str ''Still alive!''] = ''Still alive!'' \<and>
    trace N (2 * nat N + 3) main_context =
      Silent # concat (map (\<lambda>k. [Silent, New_Worker (Num k)]) [0..N - 1]) @
      [Silent, Set_Interval 1000 [Str ''Still alive!'']]"
proof -
  from assms have i: "process_inv N s"
    by (rule reachable_inv)
  have 1: "timers (coordinator s) = [] \<or>
       timers (coordinator s) = [(1000, [Str ''Still alive!''])]"
    using inv_count(3) [OF i] by blast
  have 2: "timers (coordinator s) \<noteq> [] \<longrightarrow>
       length (workers s) = nat N \<and> at (coordinator s) = At_end \<and>
       step N (Tick 0 0) s =
         Some (s\<lparr>console := console s @ [(0, [Str ''Still alive!''])]\<rparr>)"
    using inv_count(3) [OF i] inv_tick_enabled [OF i] by blast
  have 3: "\<forall>k j s'. step N (Tick k j) s = Some s' \<longrightarrow>
       k = 0 \<and> j = 0 \<and> s' = s\<lparr>console := console s @ [(0, [Str ''Still alive!''])]\<rparr>"
    using tick_only_main [OF i] by blast
  have 4: "format_log [Str ''Still alive!''] = ''Still alive!''"
    by simp
  from 1 2 3 4 trace_main [of N 0] show ?thesis
    by simp
qed

theorem timer_after_spawns_witness:
  "run 8 demo_schedule initial = Some demo_state \<and>
   timers (coordinator demo_state) = [(1000, [Str ''Still alive!''])] \<and>
   length (workers demo_state) = 8 \<and>
   step 8 (Tick 0 0) demo_state =
     Some (demo_state\<lparr>console := console demo_state @ [(0, [Str ''Still alive!''])]\<rparr>)"
proof -
  have t: "timers (coordinator demo_state) = [(1000, [Str ''Still alive!''])]"
    by code_simp
  from timer_after_spawns [OF demo_run] t demo_run show ?thesis
    by simp
qed

text \<open>
  C5. Identifiers follow the order of the spawn requests: whatever the schedule, the worker
  created by the \<open>k\<close>-th request (from 0) has the identifier \<open>k\<close>, which is what the
  main thread's \<open>k\<close>-th request carries.
\<close>

theorem ids_in_spawn_order:
  assumes "run N evs initial = Some s" and "k < length (workers s)"
  shows "workerData (workers s ! k) = Num (int k) \<and> int k < N \<and>
    spawn_requests (trace N (2 * nat N + 3) main_context) = map Num [0..N - 1] \<and>
    spawn_requests (trace N (2 * nat N + 3) main_context) ! k = Num (int k) \<and>
    workerData (workers (Start N initial) ! k) = Num (int k)"
proof -
  from assms(1) have i: "process_inv N s"
    by (rule reachable_inv)
  from inv_count(1) [OF i] assms(2) have k: "int k < N" "0 \<le> N" "k < nat N"
    by simp_all
  have r: "spawn_requests (trace N (2 * nat N + 3) main_context) = map Num [0..N - 1]"
    using spawn_requests_main [of N 0] by simp
  from k have n: "[0..N - 1] ! k = int k"
    by simp
  from k have "k < length [0..N - 1]"
    by simp
  with n have "map Num [0..N - 1] ! k = Num (int k)"
    "map (\<lambda>k. worker_context (Num k)) [0..N - 1] ! k = worker_context (Num (int k))"
    by simp_all
  with r inv_worker [OF i assms(2)] k(1) show ?thesis
    by (simp add: worker_inv_def Start_initial workers_def worker_context_def)
qed

theorem ids_in_spawn_order_witness:
  "run 8 demo_schedule initial = Some demo_state \<and> (2::nat) < length (workers demo_state) \<and>
   workerData (workers demo_state ! 2) = Num 2 \<and>
   map (\<lambda>e. hd (tl (snd e))) (take 3 (console demo_state)) = [Num 2, Num 0, Num 1] \<and>
   spawn_requests (trace 8 19 main_context) =
     [Num 0, Num 1, Num 2, Num 3, Num 4, Num 5, Num 6, Num 7]"
proof -
  have l: "(2::nat) < length (workers demo_state)"
    and o: "map (\<lambda>e. hd (tl (snd e))) (take 3 (console demo_state)) = [Num 2, Num 0, Num 1]"
    and u: "[0..(8::int) - 1] = [0, 1, 2, 3, 4, 5, 6, 7]"
    by code_simp+
  note t = ids_in_spawn_order [OF demo_run l]
  from t u have "spawn_requests (trace 8 19 main_context) =
     [Num 0, Num 1, Num 2, Num 3, Num 4, Num 5, Num 6, Num 7]"
    by simp
  with t demo_run l o show ?thesis
    by simp
qed

subsection \<open>Starting twice\<close>

lemma count_list_distinct: "distinct xs \<Longrightarrow> x \<in> set xs \<Longrightarrow> count_list xs x = 1"
  by (induction xs) auto

lemma count_list_Num: "count_list (map Num xs) (Num k) = count_list xs k"
  by (induction xs) auto

lemma workerData_worker_context:
  "map workerData (map (\<lambda>k. worker_context (Num k)) xs) = map Num xs"
  by (simp add: worker_context_def)

lemma Start_Start_workers:
  "workers (Start n (Start n initial)) =
     map (\<lambda>k. worker_context (Num k)) ([0..n - 1] @ [0..n - 1])"
proof -
  have "contexts (Start n initial) \<noteq> []"
    by (simp add: Start_initial)
  from Start_workers [OF this, of n] show ?thesis
    by (simp add: Start_initial workers_def)
qed

text \<open>
  C6. Start is not idempotent: run a second time, the main thread's branch creates another
  \<open>N\<close> workers, \<open>2 * N\<close> in all, numbered from 0 again, so that every identifier of
  \<open>0, ..., N - 1\<close> is held by exactly two workers.
\<close>

theorem Start_twice_doubles:
  "Start N (Start N initial) \<noteq> Start N initial \<and>
   length (workers (Start N initial)) = nat N \<and>
   length (workers (Start N (Start N initial))) = 2 * nat N \<and>
   map workerData (workers (Start N (Start N initial))) = map Num ([0..N - 1] @ [0..N - 1]) \<and>
   mset (map workerData (workers (Start N (Start N initial)))) =
     mset (map Num [0..N - 1]) + mset (map Num [0..N - 1]) \<and>
   (0 \<le> k \<and> k < N \<longrightarrow>
      count_list (map workerData (workers (Start N initial))) (Num k) = 1 \<and>
      count_list (map workerData (workers (Start N (Start N initial)))) (Num k) = 2) \<and>
   (\<forall>evs1 evs2 s1 s2.
      run N evs1 initial = Some s1 \<and> at (coordinator s1) = At_end \<and>
      run N evs2 initial = Some s2 \<and> at (coordinator s2) = At_end \<longrightarrow>
      length (workers s1 @ workers s2) = 2 * nat N \<and>
      map workerData (workers s1 @ workers s2) = map Num ([0..N - 1] @ [0..N - 1]))"
proof -
  have 7: "length (workers s1 @ workers s2) = 2 * nat N \<and>
      map workerData (workers s1 @ workers s2) = map Num ([0..N - 1] @ [0..N - 1])"
    if r: "run N evs1 initial = Some s1 \<and> at (coordinator s1) = At_end \<and>
      run N evs2 initial = Some s2 \<and> at (coordinator s2) = At_end"
    for evs1 evs2 s1 s2
  proof -
    from r have i1: "process_inv N s1" and i2: "process_inv N s2"
      by (auto intro: reachable_inv)
    from r inv_count(2) [OF i1] inv_count(2) [OF i2]
    have l: "length (workers s1) = nat N" "length (workers s2) = nat N"
      by simp_all
    have "map (\<lambda>k. Num (int k)) [0..<nat N] = map Num [0..N - 1]"
      by (simp add: upt_upto [symmetric])
    with inv_ids [OF i1] inv_ids [OF i2] l show ?thesis
      by simp
  qed
  have ne: "contexts (Start N initial) \<noteq> []"
    by (simp add: Start_initial)
  have c1: "timers (coordinator (Start N initial)) = [(1000, [Str ''Still alive!''])]"
    by (simp add: Start_initial coordinator_def main_context_def)
  have "timers (coordinator (Start N (Start N initial))) =
      timers (coordinator (Start N initial)) @ [(1000, [Str ''Still alive!''])]"
    by (simp add: Start_coordinator [OF ne])
  with c1 have "timers (coordinator (Start N (Start N initial))) \<noteq>
      timers (coordinator (Start N initial))"
    by simp
  then have 1: "Start N (Start N initial) \<noteq> Start N initial"
    by auto
  have w1: "map workerData (workers (Start N initial)) = map Num [0..N - 1]"
    by (simp add: Start_initial workers_def worker_context_def)
  have w2: "map workerData (workers (Start N (Start N initial))) =
      map Num ([0..N - 1] @ [0..N - 1])"
    by (simp only: Start_Start_workers workerData_worker_context)
  have 2: "length (workers (Start N initial)) = nat N"
    by (simp add: Start_initial workers_def)
  have 3: "length (workers (Start N (Start N initial))) = 2 * nat N"
    by (simp add: Start_Start_workers)
  have 5: "mset (map workerData (workers (Start N (Start N initial)))) =
     mset (map Num [0..N - 1]) + mset (map Num [0..N - 1])"
    by (simp add: w2)
  have 6: "count_list (map workerData (workers (Start N initial))) (Num k) = 1 \<and>
      count_list (map workerData (workers (Start N (Start N initial)))) (Num k) = 2"
    if "0 \<le> k \<and> k < N"
  proof -
    from that have "count_list [0..N - 1] k = 1"
      by (intro count_list_distinct) simp_all
    then show ?thesis
      by (simp add: w1 w2 count_list_Num)
  qed
  have c6: "0 \<le> k \<and> k < N \<longrightarrow>
      count_list (map workerData (workers (Start N initial))) (Num k) = 1 \<and>
      count_list (map workerData (workers (Start N (Start N initial)))) (Num k) = 2"
    using 6 by (rule impI)
  have c7: "\<forall>evs1 evs2 s1 s2.
      run N evs1 initial = Some s1 \<and> at (coordinator s1) = At_end \<and>
      run N evs2 initial = Some s2 \<and> at (coordinator s2) = At_end \<longrightarrow>
      length (workers s1 @ workers s2) = 2 * nat N \<and>
      map workerData (workers s1 @ workers s2) = map Num ([0..N - 1] @ [0..N - 1])"
    by (intro allI impI) (rule 7)
  show ?thesis
    by (intro conjI) (rule 1 2 3 w2 5 c6 c7)+
qed

theorem Start_twice_doubles_witness:
  "(0::int) \<le> 3 \<and> (3::int) < 8 \<and>
   length (workers (Start 8 (Start 8 initial))) = 16 \<and>
   count_list (map workerData (workers (Start 8 initial))) (Num 3) = 1 \<and>
   count_list (map workerData (workers (Start 8 (Start 8 initial)))) (Num 3) = 2"
proof -
  note t = Start_twice_doubles [of 8 3]
  have h: "(0::int) \<le> 3 \<and> (3::int) < 8"
    by simp
  from t have a: "length (workers (Start 8 (Start 8 initial))) = 2 * nat 8"
    by blast
  from t have "(0::int) \<le> 3 \<and> (3::int) < 8 \<longrightarrow>
      count_list (map workerData (workers (Start 8 initial))) (Num 3) = 1 \<and>
      count_list (map workerData (workers (Start 8 (Start 8 initial)))) (Num 3) = 2"
    by blast
  with h have "count_list (map workerData (workers (Start 8 initial))) (Num 3) = 1 \<and>
      count_list (map workerData (workers (Start 8 (Start 8 initial)))) (Num 3) = 2"
    by blast
  with a h show ?thesis
    by simp
qed

text \<open>
  C8. Workers never spawn workers and never install a timer: a worker runs the same file
  with \<open>isMainThread\<close> false and stays on the worker branch, its steps leave the number of
  threads and all timers as they are, so there are never more than \<open>N + 1\<close> threads,
  exactly \<open>N + 1\<close> once the main thread has left its loop, and every \<open>Still alive!\<close> line
  comes from the main thread.
\<close>

theorem workers_never_spawn:
  assumes "run N evs initial = Some s"
  shows "length (contexts s) \<le> nat N + 1 \<and>
    (at (coordinator s) = At_setInterval \<or> at (coordinator s) = At_end \<longrightarrow>
       length (contexts s) = nat N + 1) \<and>
    isMainThread (coordinator s) \<and>
    (\<forall>k < length (workers s).
       \<not> isMainThread (workers s ! k) \<and> timers (workers s ! k) = [] \<and>
       (at (workers s ! k) = At_if \<or> at (workers s ! k) = At_log \<or> in_loop (workers s ! k))) \<and>
    (\<forall>k s'. step N (Run (Suc k)) s = Some s' \<longrightarrow>
       length (contexts s') = length (contexts s) \<and>
       map timers (contexts s') = map timers (contexts s)) \<and>
    (\<forall>e \<in> set (console s). snd e = [Str ''Still alive!''] \<longrightarrow> fst e = 0) \<and>
    (\<forall>d j. set (trace N j (worker_context d)) \<subseteq>
       {Silent, Math_random, Console_log [Str ''Started: '', d]})"
proof -
  from assms have i: "process_inv N s"
    by (rule reachable_inv)
  have 1: "length (contexts s) \<le> nat N + 1"
    using inv_count(1) [OF i] length_contexts [OF i] by simp
  have 2: "at (coordinator s) = At_setInterval \<or> at (coordinator s) = At_end \<longrightarrow>
       length (contexts s) = nat N + 1"
    using inv_count(2) [OF i] length_contexts [OF i] by simp
  have 3: "isMainThread (coordinator s)"
    using inv_main [OF i] by (simp add: main_inv_def)
  have 4: "\<not> isMainThread (workers s ! k) \<and> timers (workers s ! k) = [] \<and>
       (at (workers s ! k) = At_if \<or> at (workers s ! k) = At_log \<or> in_loop (workers s ! k))"
    if "k < length (workers s)" for k
    using inv_worker [OF i that] by (auto simp: worker_inv_def in_loop_def)
  have 6: "snd e = [Str ''Still alive!''] \<longrightarrow> fst e = 0" if "e \<in> set (console s)" for e
    using inv_entry [OF i that] by auto
  have 7: "set (trace N j (worker_context d)) \<subseteq>
       {Silent, Math_random, Console_log [Str ''Started: '', d]}" for d j
    using trace_worker_effects [of "worker_context d" N j] by (simp add: worker_context_def)
  from 1 2 3 4 worker_step [OF i] 6 7 show ?thesis
    by blast
qed

theorem workers_never_spawn_witness:
  "run 8 demo_schedule initial = Some demo_state \<and> length (contexts demo_state) = 9 \<and>
   isMainThread (coordinator demo_state) \<and>
   step 8 (Run 4) demo_state =
     Some (demo_state\<lparr>contexts := (contexts demo_state)
        [4 := \<lparr>isMainThread = False, workerData = Num 3, at = At_while, loop_i = 0, timers = []\<rparr>]\<rparr>) \<and>
   length (contexts (demo_state\<lparr>contexts := (contexts demo_state)
        [4 := \<lparr>isMainThread = False, workerData = Num 3, at = At_while, loop_i = 0, timers = []\<rparr>]\<rparr>)) = 9"
proof -
  have st: "step 8 (Run (Suc 3)) demo_state =
     Some (demo_state\<lparr>contexts := (contexts demo_state)
        [4 := \<lparr>isMainThread = False, workerData = Num 3, at = At_while, loop_i = 0, timers = []\<rparr>]\<rparr>)"
    and e: "at (coordinator demo_state) = At_end"
    by code_simp+
  note t = workers_never_spawn [OF demo_run]
  from t e have a: "length (contexts demo_state) = nat 8 + 1"
    by blast
  from t have b: "isMainThread (coordinator demo_state)"
    by blast
  from t st have "length (contexts (demo_state\<lparr>contexts := (contexts demo_state)
        [4 := \<lparr>isMainThread = False, workerData = Num 3, at = At_while, loop_i = 0, timers = []\<rparr>]\<rparr>))
      = length (contexts demo_state)"
    by blast
  with a b st demo_run show ?thesis
    by simp
qed

subsection \<open>A bound that is not positive\<close>

lemma run_ticks:
  "process_inv n s \<Longrightarrow> at (coordinator s) = At_end \<Longrightarrow>
   run n (replicate t (Tick 0 0)) s =
     Some (s\<lparr>console := console s @ replicate t (0, [Str ''Still alive!''])\<rparr>)"
proof (induction t arbitrary: s)
  case 0
  show ?case by simp
next
  case (Suc t)
  let ?s' = "s\<lparr>console := console s @ [(0, [Str ''Still alive!''])]\<rparr>"
  from Suc.prems have st: "step n (Tick 0 0) s = Some ?s'"
    by (rule inv_tick_enabled)
  with Suc.prems(1) have "process_inv n ?s'"
    by (rule step_preserves)
  moreover from Suc.prems(2) have "at (coordinator ?s') = At_end"
    by (simp add: coordinator_def)
  ultimately have "run n (replicate t (Tick 0 0)) ?s' =
      Some (?s'\<lparr>console := console ?s' @ replicate t (0, [Str ''Still alive!''])\<rparr>)"
    by (rule Suc.IH)
  with st show ?case
    by simp
qed

text \<open>
  C9. With a bound \<open>workerCount \<le> 0\<close> the body of the loop never runs: no worker is ever
  created and no \<open>Started:\<close> line is ever printed, but the main thread still installs its
  timer, after three steps, and from then on every tick prints \<open>Still alive!\<close>.
\<close>

theorem no_workers_when_count_not_positive:
  assumes "N \<le> 0" and "run N evs initial = Some s"
  shows "workers s = [] \<and> (\<forall>e \<in> set (console s). e = (0, [Str ''Still alive!''])) \<and>
    trace N 3 main_context = [Silent, Silent, Set_Interval 1000 [Str ''Still alive!'']] \<and>
    Start N initial =
      \<lparr>contexts = [main_context\<lparr>timers := [(1000, [Str ''Still alive!''])]\<rparr>], console = []\<rparr> \<and>
    (\<forall>t. run N (replicate 3 (Run 0) @ replicate t (Tick 0 0)) initial =
       Some \<lparr>contexts =
               [main_context\<lparr>at := At_end, timers := [(1000, [Str ''Still alive!''])]\<rparr>],
             console = replicate t (0, [Str ''Still alive!''])\<rparr>) \<and>
    (at (coordinator s) = At_end \<longrightarrow>
       step N (Tick 0 0) s = Some (s\<lparr>console := console s @ [(0, [Str ''Still alive!''])]\<rparr>))"
proof -
  from assms(2) have i: "process_inv N s"
    by (rule reachable_inv)
  from assms(1) have n: "nat N = 0" "[0..N - 1] = []" "max 0 N = 0"
    by simp_all
  from inv_count(1) [OF i] n have 1: "workers s = []"
    by simp
  have 2: "e = (0, [Str ''Still alive!''])" if "e \<in> set (console s)" for e
    using inv_entry [OF i that] 1 by simp
  have 3: "trace N 3 main_context = [Silent, Silent, Set_Interval 1000 [Str ''Still alive!'']]"
    using trace_main [of N 0] n by simp
  have 4: "Start N initial =
      \<lparr>contexts = [main_context\<lparr>timers := [(1000, [Str ''Still alive!''])]\<rparr>], console = []\<rparr>"
    by (simp add: Start_initial n)
  have sp: "spawned N =
      \<lparr>contexts = [main_context\<lparr>at := At_end, timers := [(1000, [Str ''Still alive!''])]\<rparr>],
       console = []\<rparr>"
    by (simp add: spawned_def n main_context_def)
  have r3: "run N (replicate 3 (Run 0)) initial = Some (spawned N)"
    using run_main_alone [of N] n by simp
  have 5: "run N (replicate 3 (Run 0) @ replicate t (Tick 0 0)) initial =
       Some \<lparr>contexts =
               [main_context\<lparr>at := At_end, timers := [(1000, [Str ''Still alive!''])]\<rparr>],
             console = replicate t (0, [Str ''Still alive!''])\<rparr>" for t
  proof -
    from r3 have "process_inv N (spawned N)"
      by (rule reachable_inv)
    moreover have "at (coordinator (spawned N)) = At_end"
      by (simp add: sp coordinator_def)
    ultimately have "run N (replicate t (Tick 0 0)) (spawned N) =
        Some (spawned N\<lparr>console := console (spawned N) @ replicate t (0, [Str ''Still alive!''])\<rparr>)"
      by (rule run_ticks)
    with r3 show ?thesis
      by (simp only: run_append option.case) (simp add: sp)
  qed
  from 1 2 3 4 5 inv_tick_enabled [OF i] show ?thesis
    by blast
qed

theorem no_workers_when_count_not_positive_witness:
  "(0::int) \<le> 0 \<and> run 0 idle_schedule initial = Some idle_state \<and>
   workers idle_state = [] \<and> at (coordinator idle_state) = At_end \<and>
   step 0 (Tick 0 0) idle_state =
     Some (idle_state\<lparr>console := console idle_state @ [(0, [Str ''Still alive!''])]\<rparr>) \<and>
   trace 0 3 main_context = [Silent, Silent, Set_Interval 1000 [Str ''Still alive!'']]"
proof -
  have e: "at (coordinator idle_state) = At_end"
    by code_simp
  have z: "(0::int) \<le> 0"
    by simp
  from no_workers_when_count_not_positive [OF z idle_run] e idle_run show ?thesis
    by simp
qed

section \<open>Properties of the promise demo\<close>

lemma le_zero_not_gt_zero: "le_zero w \<Longrightarrow> \<not> gt_zero w"
  by (auto simp: le_zero_def gt_zero_def)

lemma promiseFn_cases:
  "promiseFn number =
     (if gt_zero number then Fulfilled (Num (times_two number)) else Rejected (Str ''Nope''))"
  by (simp add: promiseFn_def new_Promise_def resolve_def reject_def)

lemma asyncFn_cases:
  "asyncFn number =
     (if gt_zero number then Fulfilled (Num (times_two number)) else Rejected (Str ''Nope''))"
  by (simp add: asyncFn_def async_def)

text \<open>
  C10. \<open>promiseFn\<close> and \<open>asyncFn\<close> are extensionally equal: on every number they give the
  same promise; it is fulfilled with \<open>number * 2\<close> when \<open>number > 0\<close> and rejected with
  \<open>'Nope'\<close> when \<open>number <= 0\<close>.
\<close>

theorem promiseFn_asyncFn_equivalent:
  "promiseFn number = asyncFn number \<and>
   (gt_zero number \<longrightarrow>
      promiseFn number = Fulfilled (Num (times_two number)) \<and>
      asyncFn number = Fulfilled (Num (times_two number))) \<and>
   (le_zero number \<longrightarrow>
      promiseFn number = Rejected (Str ''Nope'') \<and>
      asyncFn number = Rejected (Str ''Nope''))"
  using le_zero_not_gt_zero [of number]
  by (auto simp: promiseFn_cases asyncFn_cases)

theorem promiseFn_asyncFn_equivalent_witness:
  "gt_zero 0x4000000000000000 \<and>
   promiseFn 0x4000000000000000 = Fulfilled (Num 0x4010000000000000) \<and>
   asyncFn 0x4000000000000000 = Fulfilled (Num 0x4010000000000000) \<and>
   le_zero 0xBFF0000000000000 \<and>
   promiseFn 0xBFF0000000000000 = Rejected (Str ''Nope'') \<and>
   asyncFn 0xBFF0000000000000 = Rejected (Str ''Nope'')"
proof -
  have g: "gt_zero 0x4000000000000000"
    by (simp add: gt_zero_def is_NaN_def magnitude_def sign_negative_def)
  have l: "le_zero 0xBFF0000000000000"
    by (simp add: le_zero_def is_NaN_def magnitude_def sign_negative_def)
  have t: "times_two 0x4000000000000000 = 0x4010000000000000"
    by (simp add: times_two_def magnitude_def)
  show ?thesis
    using promiseFn_asyncFn_equivalent [of "0x4000000000000000"]
      promiseFn_asyncFn_equivalent [of "0xBFF0000000000000"] g l t
    by simp
qed

end
